theory Spec2Isabelle
  imports Complex_Main "HOL-Library.AList" "HOL-Library.Char_ord" "HOL-Library.List_Lexorder"
begin

section \<open>Data model (lib/FamilyTree.ts)\<close>

text \<open>
  The program is a graph of JavaScript objects that refer to each other (a node's
  \<open>children\<close>, \<open>partners\<close> and \<open>parent\<close> are object references) and that are
  mutated in place. Objects therefore live in a heap: a list of nodes, where an address
  is an index into the list. A reference that may be \<open>null\<close> or \<open>undefined\<close> is
  an \<open>option\<close>; an optional array field is an \<open>option\<close> of a list. The elements of
  an array are typed as nodes in the source; where the source still tests an element
  (\<open>child && ...\<close>) the test is the bounds check of the address. The arrays of nodes
  that the functions are called on (\<open>level\<close>, \<open>siblings\<close>, \<open>nodes\<close>) hold nodes, as their
  types say; the theorems state this where they need it.

  \<open>id\<close>, \<open>image\<close>, \<open>x\<close> and \<open>y\<close> are written \<open>node_id\<close>, \<open>node_image\<close>,
  \<open>node_x\<close> and \<open>node_y\<close>. Numbers are reals.
\<close>

record TreeNode =
  node_id :: string
  label :: string
  parent :: "nat option"
  partners :: "nat list option"
  children :: "nat list option"
  coParentId :: "string option"
  node_image :: "string option"

record PositionedTreeNode = TreeNode +
  node_x :: real
  node_y :: real
  depth :: "nat option"

record TreeLink =
  link_id :: string
  x1 :: real
  y1 :: real
  x2 :: real
  y2 :: real
  hasArrow :: "bool option"

record PositionedTreeData =
  pd_nodes :: "nat list"
  pd_links :: "TreeLink list"
  pd_width :: real
  pd_height :: real

type_synonym heap = "PositionedTreeNode list"

text \<open>\<open>xs || []\<close>, and the guard \<open>if (xs)\<close> around a loop over \<open>xs\<close>.\<close>

definition orEmpty :: "'a list option \<Rightarrow> 'a list" where
  "orEmpty xs = (case xs of None \<Rightarrow> [] | Some ys \<Rightarrow> ys)"

section \<open>Layout utilities (utils/layoutUtils.ts)\<close>

subsection \<open>buildLayoutBlocks\<close>

text \<open>
  The inner \<open>child.partners.forEach\<close>: the state is the block under construction and
  the set \<open>used\<close> of ids.
\<close>

definition pushPartner :: "heap \<Rightarrow> nat \<Rightarrow> nat list \<times> string set \<Rightarrow> nat list \<times> string set" where
  "pushPartner h partner st =
     (case st of (block, used) \<Rightarrow>
        if partner < length h \<and> node_id (h ! partner) \<notin> used
        then (block @ [partner], insert (node_id (h ! partner)) used)
        else (block, used))"

text \<open>The body of \<open>siblings.forEach\<close>: the state is \<open>layoutBlocks\<close> and \<open>used\<close>.\<close>

definition blockOfChild :: "heap \<Rightarrow> nat \<Rightarrow> nat list list \<times> string set \<Rightarrow> nat list list \<times> string set" where
  "blockOfChild h child st =
     (case st of (layoutBlocks, used) \<Rightarrow>
        if node_id (h ! child) \<in> used then (layoutBlocks, used)
        else (case fold (pushPartner h) (orEmpty (partners (h ! child)))
                     ([child], insert (node_id (h ! child)) used) of
                (block, used') \<Rightarrow> (layoutBlocks @ [block], used')))"

definition buildLayoutBlocks :: "heap \<Rightarrow> nat list \<Rightarrow> nat list list" where
  "buildLayoutBlocks h siblings = fst (fold (blockOfChild h) siblings ([], {}))"

subsection \<open>The block building the layout watcher does inline (components/Tree.vue)\<close>

text \<open>
  The watcher does not call \<open>buildLayoutBlocks\<close>; it builds the blocks of a sibling
  group itself: \<open>seen\<close> holds the ids of the children only, and a block is
  \<open>[child, ...partners]\<close>.
\<close>

definition inlineBlockOfChild :: "heap \<Rightarrow> nat \<Rightarrow> nat list list \<times> string set \<Rightarrow> nat list list \<times> string set" where
  "inlineBlockOfChild h child st =
     (case st of (layoutBlocks, seen) \<Rightarrow>
        if node_id (h ! child) \<in> seen then (layoutBlocks, seen)
        else (layoutBlocks @ [child # orEmpty (partners (h ! child))],
              insert (node_id (h ! child)) seen))"

definition inlineLayoutBlocks :: "heap \<Rightarrow> nat list \<Rightarrow> nat list list" where
  "inlineLayoutBlocks h siblings = fst (fold (inlineBlockOfChild h) siblings ([], {}))"

subsection \<open>calculateTotalBlocksWidth\<close>

definition calculateTotalBlocksWidth :: "nat list list \<Rightarrow> real \<Rightarrow> real \<Rightarrow> real" where
  "calculateTotalBlocksWidth layoutBlocks NODE_WIDTH X_SPACING =
     fold (\<lambda>(i, block) sum.
             sum + real (length block) * NODE_WIDTH + (real (length block) - 1) * X_SPACING
                 + (if i > 0 then X_SPACING else 0))
          (enumerate 0 layoutBlocks) 0"

subsection \<open>positionRootNodes\<close>

definition placeRoot :: "real \<Rightarrow> nat \<Rightarrow> real \<Rightarrow> real \<Rightarrow> nat \<times> nat \<Rightarrow> heap \<Rightarrow> heap" where
  "placeRoot totalWidth numNodesInLevel NODE_WIDTH y = (\<lambda>(index, node) h.
     h[node := (h ! node)
        \<lparr>node_x := (totalWidth / (real numNodesInLevel + 1)) * (real index + 1) - NODE_WIDTH / 2,
         node_y := y\<rparr>])"

definition positionRootNodes :: "heap \<Rightarrow> nat list \<Rightarrow> real \<Rightarrow> real \<Rightarrow> real \<Rightarrow> heap" where
  "positionRootNodes h level totalWidth NODE_WIDTH y =
     (let numNodesInLevel = length level
      in fold (placeRoot totalWidth numNodesInLevel NODE_WIDTH y)
              (enumerate 0 (filter (\<lambda>node. parent (h ! node) = None) level)) h)"

subsection \<open>preventOverlap\<close>

text \<open>
  The loop \<open>for (i = 1; i < level.length; i++)\<close> over the sorted array: \<open>prev\<close> is
  \<open>level[i - 1]\<close>, the head \<open>cur\<close> of the remaining list is \<open>level[i]\<close> (\<open>curr\<close> in the source).
\<close>

fun sweep :: "heap \<Rightarrow> real \<Rightarrow> real \<Rightarrow> nat \<Rightarrow> nat list \<Rightarrow> heap" where
  "sweep h NODE_WIDTH X_SPACING prev [] = h"
| "sweep h NODE_WIDTH X_SPACING prev (cur # rest) =
     sweep (if node_x (h ! cur) < node_x (h ! prev) + NODE_WIDTH + X_SPACING
            then h[cur := (h ! cur)\<lparr>node_x := node_x (h ! prev) + NODE_WIDTH + X_SPACING\<rparr>]
            else h)
           NODE_WIDTH X_SPACING cur rest"

text \<open>
  \<open>level.sort((a, b) => a.x - b.x)\<close> is a stable sort by x, in place: the sorted array
  is returned with the heap.
\<close>

definition preventOverlap :: "heap \<Rightarrow> nat list \<Rightarrow> real \<Rightarrow> real \<Rightarrow> heap \<times> nat list" where
  "preventOverlap h level NODE_WIDTH X_SPACING =
     (let sorted_level = sort_key (\<lambda>a. node_x (h ! a)) level
      in case sorted_level of
           [] \<Rightarrow> (h, sorted_level)
         | first # rest \<Rightarrow> (sweep h NODE_WIDTH X_SPACING first rest, sorted_level))"

section \<open>The graph snapshot (utils/treeUtility.ts)\<close>

subsection \<open>traverseAndAnnotateTree\<close>

record QueueEntry =
  q_node :: nat
  q_depth :: nat
  q_parent :: "nat option"

text \<open>The variables of the loop; the nodes are mutated, so the heap is one of them.\<close>

record Traversal =
  tr_heap :: heap
  tr_queue :: "QueueEntry list"
  tr_visited :: "string set"
  tr_nodes :: "nat list"
  tr_nodesByDepth :: "(nat \<times> nat list) list"

datatype error = TypeError

text \<open>
  \<open>if (!nodesByDepth.has(depth)) nodesByDepth.set(depth, []);
  nodesByDepth.get(depth)!.push(node)\<close>
\<close>

definition pushAtDepth :: "nat \<Rightarrow> nat \<Rightarrow> (nat \<times> nat list) list \<Rightarrow> (nat \<times> nat list) list" where
  "pushAtDepth d node nodesByDepth =
     (case map_of nodesByDepth d of
        None \<Rightarrow> nodesByDepth @ [(d, [node])]
      | Some level \<Rightarrow> AList.update d (level @ [node]) nodesByDepth)"

text \<open>The two loops that fill the queue: children one level down, partners at the same depth.\<close>

definition childEntries :: "heap \<Rightarrow> string set \<Rightarrow> nat \<Rightarrow> nat \<Rightarrow> QueueEntry list" where
  "childEntries h visited node d =
     map (\<lambda>child. \<lparr>q_node = child, q_depth = d + 1, q_parent = Some node\<rparr>)
         (filter (\<lambda>child. child < length h \<and> node_id (h ! child) \<notin> visited)
                 (orEmpty (children (h ! node))))"

definition partnerEntries :: "heap \<Rightarrow> string set \<Rightarrow> nat \<Rightarrow> nat \<Rightarrow> QueueEntry list" where
  "partnerEntries h visited node d =
     map (\<lambda>partner. \<lparr>q_node = partner, q_depth = d, q_parent = None\<rparr>)
         (filter (\<lambda>partner. partner < length h \<and> node_id (h ! partner) \<notin> visited)
                 (orEmpty (partners (h ! node))))"

text \<open>
  One turn of the \<open>while\<close> loop. The queue holds the root and the elements the guards
  \<open>child && ...\<close> and \<open>partner && ...\<close> let through, so the first case below (an entry
  that is no node) does not arise from a root that is a node.
\<close>

definition visit :: "Traversal \<Rightarrow> Traversal" where
  "visit s =
     (case tr_queue s of
        [] \<Rightarrow> s
      | e # rest \<Rightarrow>
          (let h = tr_heap s; node = q_node e
           in if \<not> node < length h then s\<lparr>tr_queue := rest\<rparr>
              else if node_id (h ! node) \<in> tr_visited s then s\<lparr>tr_queue := rest\<rparr>
              else
                (let visited = insert (node_id (h ! node)) (tr_visited s);
                     h' = h[node := (h ! node)\<lparr>parent := q_parent e, depth := Some (q_depth e)\<rparr>]
                 in \<lparr>tr_heap = h',
                     tr_queue = rest @ childEntries h' visited node (q_depth e)
                                     @ partnerEntries h' visited node (q_depth e),
                     tr_visited = visited,
                     tr_nodes = tr_nodes s @ [node],
                     tr_nodesByDepth = pushAtDepth (q_depth e) node (tr_nodesByDepth s)\<rparr>)))"

text \<open>
  \<open>while (queue.length > 0)\<close>. Every turn either takes an entry off the queue or
  visits an id of the heap that was not visited before.
\<close>

function traverseLoop :: "Traversal \<Rightarrow> Traversal" where
  "traverseLoop s = (if tr_queue s = [] then s else traverseLoop (visit s))"
  by pat_completeness auto
termination
proof (relation "measures [\<lambda>s. card (node_id ` set (tr_heap s) - tr_visited s),
                           \<lambda>s. length (tr_queue s)]")
  show "wf (measures [\<lambda>s. card (node_id ` set (tr_heap s) - tr_visited s),
                      \<lambda>s. length (tr_queue s)])"
    by simp
next
  fix s :: Traversal
  assume ne: "tr_queue s \<noteq> []"
  then obtain e rest where q: "tr_queue s = e # rest" by (cases "tr_queue s") auto
  let ?h = "tr_heap s" and ?n = "q_node e"
  show "(visit s, s) \<in> measures [\<lambda>s. card (node_id ` set (tr_heap s) - tr_visited s),
                                   \<lambda>s. length (tr_queue s)]"
  proof (cases "?n < length ?h \<and> node_id (?h ! ?n) \<notin> tr_visited s")
    case False
    then have "visit s = s\<lparr>tr_queue := rest\<rparr>"
      using q by (auto simp: visit_def Let_def)
    then show ?thesis using q by simp
  next
    case True
    let ?h' = "?h[?n := (?h ! ?n)\<lparr>parent := q_parent e, depth := Some (q_depth e)\<rparr>]"
    have h': "tr_heap (visit s) = ?h'"
      and v': "tr_visited (visit s) = insert (node_id (?h ! ?n)) (tr_visited s)"
      using q True by (simp_all add: visit_def Let_def)
    have "map node_id ?h' = (map node_id ?h)[?n := node_id (?h ! ?n)]"
      by (simp add: map_update)
    also have "\<dots> = map node_id ?h"
      using True by (simp add: list_update_same_conv)
    finally have "node_id ` set ?h' = node_id ` set ?h"
      by (metis set_map)
    moreover have "node_id (?h ! ?n) \<in> node_id ` set ?h - tr_visited s"
      using True by auto
    ultimately have "card (node_id ` set (tr_heap (visit s)) - tr_visited (visit s))
                     < card (node_id ` set ?h - tr_visited s)"
      unfolding h' v'
      by (intro psubset_card_mono) auto
    then show ?thesis by simp
  qed
qed

text \<open>
  The function. \<open>root\<close> is typed as a node; on a reference that is none the first
  \<open>node.id\<close> throws.
\<close>

definition traverseAndAnnotateTree :: "heap \<Rightarrow> nat
     \<Rightarrow> error + (heap \<times> nat list \<times> (nat \<times> nat list) list)" where
  "traverseAndAnnotateTree h rootNode =
     (if rootNode < length h
      then (let s = traverseLoop \<lparr>tr_heap = h,
                                  tr_queue = [\<lparr>q_node = rootNode, q_depth = 0, q_parent = None\<rparr>],
                                  tr_visited = {}, tr_nodes = [], tr_nodesByDepth = []\<rparr>
            in Inr (tr_heap s, tr_nodes s, tr_nodesByDepth s))
      else Inl TypeError)"

section \<open>The family graph store (class FamilyTree, lib/FamilyTree.ts)\<close>

text \<open>
  \<open>this.nodes\<close> is a \<open>Map\<close> from ids to node objects. A \<open>Map\<close> iterates in the
  order in which its keys were first set, so it is an association list
  (\<open>AList.update\<close> replaces the value of a key in place and puts a new key last). The
  objects themselves are in \<open>objects\<close>, the heap of the store; \<open>new\<close> takes the next
  address.
\<close>

record FamilyTree =
  objects :: "TreeNode list"
  nodes :: "(string \<times> nat) list"

text \<open>\<open>FamilyTreeNodeInput = Omit<TreeNode, "children" | "partners" | "parent">\<close>\<close>

record FamilyTreeNodeInput =
  in_id :: string
  in_label :: string
  in_coParentId :: "string option"
  in_image :: "string option"

text \<open>\<open>a.children?.push(c)\<close> and \<open>a.partners?.push(p)\<close>\<close>

definition pushChild :: "TreeNode list \<Rightarrow> nat \<Rightarrow> nat \<Rightarrow> TreeNode list" where
  "pushChild h a c =
     (case children (h ! a) of None \<Rightarrow> h
      | Some cs \<Rightarrow> h[a := (h ! a)\<lparr>children := Some (cs @ [c])\<rparr>])"

definition pushPartnerRef :: "TreeNode list \<Rightarrow> nat \<Rightarrow> nat \<Rightarrow> TreeNode list" where
  "pushPartnerRef h a p =
     (case partners (h ! a) of None \<Rightarrow> h
      | Some ps \<Rightarrow> h[a := (h ! a)\<lparr>partners := Some (ps @ [p])\<rparr>])"

text \<open>\<open>a.partners?.some((p) => p.id === i)\<close>, as a truth value\<close>

definition somePartnerHasId :: "TreeNode list \<Rightarrow> nat \<Rightarrow> string \<Rightarrow> bool" where
  "somePartnerHasId h a i = (\<exists>p \<in> set (orEmpty (partners (h ! a))). node_id (h ! p) = i)"

subsection \<open>addNode\<close>

text \<open>
  The arguments \<open>parent\<close>, \<open>partners\<close> and \<open>children\<close> of \<open>nodeData\<close> are references
  to objects of the caller. The result is the new node and the store.
\<close>

definition addNode_partner :: "(string \<times> nat) list \<Rightarrow> nat \<Rightarrow> string \<Rightarrow> nat \<Rightarrow> TreeNode list \<Rightarrow> TreeNode list" where
  "addNode_partner reg newNode i partner h =
     (case map_of reg (node_id (h ! partner)) of
        None \<Rightarrow> h
      | Some partnerNode \<Rightarrow>
          (let h' = pushPartnerRef h newNode partnerNode
           in if \<not> somePartnerHasId h' partnerNode i
              then pushPartnerRef h' partnerNode newNode else h'))"

definition addNode_child :: "(string \<times> nat) list \<Rightarrow> nat \<Rightarrow> nat \<Rightarrow> TreeNode list \<Rightarrow> TreeNode list" where
  "addNode_child reg newNode child h =
     (case map_of reg (node_id (h ! child)) of
        None \<Rightarrow> h
      | Some childNode \<Rightarrow>
          (let h' = pushChild h newNode childNode
           in h'[childNode := (h' ! childNode)\<lparr>parent := Some newNode\<rparr>]))"

definition addNode :: "FamilyTree \<Rightarrow> FamilyTreeNodeInput \<Rightarrow> nat option \<Rightarrow> nat list \<Rightarrow> nat list
                        \<Rightarrow> nat \<times> FamilyTree" where
  "addNode t nodeData parent_arg partners_arg children_arg =
     (let newNode = length (objects t);
          h0 = objects t @
                 [\<lparr>node_id = in_id nodeData, label = in_label nodeData, parent = parent_arg,
                   partners = Some [], children = Some [],
                   coParentId = in_coParentId nodeData, node_image = in_image nodeData\<rparr>];
          reg = AList.update (in_id nodeData) newNode (nodes t);
          h1 = (case parent_arg of
                  None \<Rightarrow> h0
                | Some p \<Rightarrow>
                    if node_id (h0 ! p) \<noteq> []
                    then (case map_of reg (node_id (h0 ! p)) of
                            None \<Rightarrow> h0
                          | Some parentNode \<Rightarrow>
                              (let h = pushChild h0 parentNode newNode
                               in h[newNode := (h ! newNode)\<lparr>parent := Some parentNode\<rparr>]))
                    else h0);
          h2 = fold (addNode_partner reg newNode (in_id nodeData)) partners_arg h1;
          h3 = fold (addNode_child reg newNode) children_arg h2
      in (newNode, \<lparr>objects = h3, nodes = reg\<rparr>))"

subsection \<open>addParent\<close>

text \<open>
  \<open>this.nodes.get(i)\<close>, or the node \<open>this.addNode({ ...data })\<close> makes when there is
  none: \<open>data\<close> is a \<open>FamilyTreeNodeInput\<close>, which has no parent, partners or children.
\<close>

definition getOrAdd :: "FamilyTree \<Rightarrow> FamilyTreeNodeInput \<Rightarrow> nat \<times> FamilyTree" where
  "getOrAdd t nodeData =
     (case map_of (nodes t) (in_id nodeData) of
        Some existing \<Rightarrow> (existing, t)
      | None \<Rightarrow> addNode t nodeData None [] [])"

definition addParent :: "FamilyTree \<Rightarrow> string \<Rightarrow> FamilyTreeNodeInput \<Rightarrow> FamilyTreeNodeInput option
                          \<Rightarrow> bool \<times> FamilyTree" where
  "addParent t childId parentData coParentData =
     (case map_of (nodes t) childId of
        None \<Rightarrow> (False, t)
      | Some child \<Rightarrow>
          (case getOrAdd t parentData of (parent', t1) \<Rightarrow>
             if parent (objects t1 ! child) = None
             then
               (let h1 = (objects t1)[child := (objects t1 ! child)\<lparr>parent := Some parent'\<rparr>];
                    t2 = t1\<lparr>objects := pushChild h1 parent' child\<rparr>
                in case coParentData of
                     None \<Rightarrow> (True, t2)
                   | Some coData \<Rightarrow>
                       (case getOrAdd t2 coData of (coParent, t3) \<Rightarrow>
                          (let h3 = (if \<not> somePartnerHasId (objects t3) parent' (node_id (objects t3 ! coParent))
                                     then pushPartnerRef (objects t3) parent' coParent
                                     else objects t3);
                               h4 = (if \<not> somePartnerHasId h3 coParent (node_id (h3 ! parent'))
                                     then pushPartnerRef h3 coParent parent'
                                     else h3);
                               h5 = h4[child := (h4 ! child)\<lparr>coParentId := Some (node_id (h4 ! coParent))\<rparr>]
                           in (True, t3\<lparr>objects := h5\<rparr>))))
             else (False, t1)))"

subsection \<open>getRootNodes\<close>

text \<open>
  \<open>!node.parent?.id\<close>: true when the node has no parent, and also when its parent's id
  is the empty string.
\<close>

definition getRootNodes :: "FamilyTree \<Rightarrow> nat list" where
  "getRootNodes t =
     filter (\<lambda>node. case parent (objects t ! node) of
                       None \<Rightarrow> True
                     | Some p \<Rightarrow> node_id (objects t ! p) = [])
            (map snd (nodes t))"

section \<open>Root selection and the empty layout (components/Tree.vue)\<close>

text \<open>
  \<open>root.children?.length ?? 0 > 0\<close>: the comparison binds tighter than \<open>??\<close>, so this
  is the length of \<open>children\<close> when \<open>children\<close> is there (truthy when it is not 0), and
  \<open>0 > 0\<close> when it is not.
\<close>

definition hasChildren :: "FamilyTree \<Rightarrow> nat \<Rightarrow> bool" where
  "hasChildren t rootNode =
     (case children (objects t ! rootNode) of
        None \<Rightarrow> (0::nat) > 0
      | Some cs \<Rightarrow> length cs \<noteq> 0)"

definition getRootNode :: "FamilyTree \<Rightarrow> nat option" where
  "getRootNode t =
     (let roots = getRootNodes t
      in case roots of
           [] \<Rightarrow> None
         | first # _ \<Rightarrow>
             (case find (hasChildren t) roots of
                Some rootNode \<Rightarrow> Some rootNode
              | None \<Rightarrow> Some first))"

definition emptyLayout :: PositionedTreeData where
  "emptyLayout = \<lparr>pd_nodes = [], pd_links = [], pd_width = 0, pd_height = 0\<rparr>"

text \<open>
  The callback of the watcher on \<open>getRootNode()\<close>. Without a root it stores the empty
  layout and returns. What it does with a root (clone, traversal, placement, links) is
  the parameter \<open>relayout\<close> here; the result is the heap of the layout nodes and
  \<open>positionedData\<close>.
\<close>

definition layoutWatcher :: "(FamilyTree \<Rightarrow> nat \<Rightarrow> heap \<times> PositionedTreeData) \<Rightarrow> FamilyTree
                              \<Rightarrow> heap \<times> PositionedTreeData" where
  "layoutWatcher relayout t =
     (case getRootNode t of
        None \<Rightarrow> ([], emptyLayout)
      | Some newTree \<Rightarrow> relayout t newTree)"

section \<open>Link synthesis (components/Tree.vue)\<close>

subsection \<open>getOptimalConnectionPoints\<close>

text \<open>Top, bottom, left and right mid point of a node's box.\<close>

definition anchorPoints :: "real \<Rightarrow> real \<Rightarrow> PositionedTreeNode \<Rightarrow> (real \<times> real) list" where
  "anchorPoints NODE_WIDTH NODE_HEIGHT n =
     [(node_x n + NODE_WIDTH / 2, node_y n),
      (node_x n + NODE_WIDTH / 2, node_y n + NODE_HEIGHT),
      (node_x n, node_y n + NODE_HEIGHT / 2),
      (node_x n + NODE_WIDTH, node_y n + NODE_HEIGHT / 2)]"

text \<open>
  The body of the inner loop. The state is \<open>minDistance\<close> and \<open>optimalPoints\<close>
  (x1, y1, x2, y2); \<open>minDistance = Infinity\<close> is \<open>None\<close>.
\<close>

definition closerPair :: "real \<times> real \<Rightarrow> real \<times> real \<Rightarrow> real option \<times> (real \<times> real \<times> real \<times> real)
                           \<Rightarrow> real option \<times> (real \<times> real \<times> real \<times> real)" where
  "closerPair pA pB st =
     (case st of (minDistance, optimalPoints) \<Rightarrow>
        (let distance = sqrt ((fst pA - fst pB)\<^sup>2 + (snd pA - snd pB)\<^sup>2)
         in if (case minDistance of None \<Rightarrow> True | Some m \<Rightarrow> distance < m)
            then (Some distance, (fst pA, snd pA, fst pB, snd pB))
            else (minDistance, optimalPoints)))"

definition getOptimalConnectionPoints :: "real \<Rightarrow> real \<Rightarrow> PositionedTreeNode \<Rightarrow> PositionedTreeNode
                                           \<Rightarrow> real \<times> real \<times> real \<times> real" where
  "getOptimalConnectionPoints NODE_WIDTH NODE_HEIGHT nodeA nodeB =
     (let pointsA = anchorPoints NODE_WIDTH NODE_HEIGHT nodeA;
          pointsB = anchorPoints NODE_WIDTH NODE_HEIGHT nodeB
      in snd (fold (\<lambda>pA. fold (closerPair pA) pointsB) pointsA
                (None, (fst (pointsA ! 0), snd (pointsA ! 0), fst (pointsB ! 0), snd (pointsB ! 0)))))"

subsection \<open>Strings\<close>

text \<open>\<open>s.split(c)\<close> for a one-character separator.\<close>

fun split_on :: "char \<Rightarrow> string \<Rightarrow> string list" where
  "split_on c [] = [[]]"
| "split_on c (x # xs) =
     (if x = c then [] # split_on c xs
      else (case split_on c xs of
              [] \<Rightarrow> [[x]]
            | w # ws \<Rightarrow> (x # w) # ws))"

text \<open>\<open>[p1, p2].sort().join('_')\<close>: the default order of \<open>sort\<close> on strings.\<close>

definition sortedJoin :: "string \<Rightarrow> string \<Rightarrow> string" where
  "sortedJoin p1 p2 = (if p2 < p1 then p2 @ ''_'' @ p1 else p1 @ ''_'' @ p2)"

subsection \<open>calculateLinks\<close>

definition Y_SPACING_BUS :: real where
  "Y_SPACING_BUS = 100"

definition mkLink :: "string \<Rightarrow> real \<times> real \<times> real \<times> real \<Rightarrow> bool option \<Rightarrow> TreeLink" where
  "mkLink i pts arrow =
     (case pts of (a, b, c, d) \<Rightarrow>
        \<lparr>link_id = i, x1 = a, y1 = b, x2 = c, y2 = d, hasArrow = arrow\<rparr>)"

text \<open>\<open>new Map(nodes.map(n => [n.id, n])).get(k)\<close>: of the nodes with the id the last wins.\<close>

definition nodeMapGet :: "heap \<Rightarrow> nat list \<Rightarrow> string \<Rightarrow> nat option" where
  "nodeMapGet h ns k = find (\<lambda>n. node_id (h ! n) = k) (rev ns)"

text \<open>Step 1: the partner links of one node.\<close>

definition partnerLinks :: "heap \<Rightarrow> real \<Rightarrow> real \<Rightarrow> nat \<Rightarrow> TreeLink list \<Rightarrow> TreeLink list" where
  "partnerLinks h NODE_WIDTH NODE_HEIGHT node newLinks =
     fold (\<lambda>partner ls.
             if partner < length h \<and> node_id (h ! node) < node_id (h ! partner)
             then ls @ [mkLink (''p_'' @ node_id (h ! node) @ ''_'' @ node_id (h ! partner))
                          (getOptimalConnectionPoints NODE_WIDTH NODE_HEIGHT (h ! node) (h ! partner))
                          None]
             else ls)
          (orEmpty (partners (h ! node))) newLinks"

text \<open>
  Step 2: \<open>node.parent && node.parent.children &&
  node.parent.children.some(child => child.id === node.id)\<close>, and the key of the family.
  A child that is no node has no id to compare.
\<close>

definition listedByParent :: "heap \<Rightarrow> nat \<Rightarrow> bool" where
  "listedByParent h node =
     (case parent (h ! node) of
        None \<Rightarrow> False
      | Some p \<Rightarrow>
          p < length h \<and>
          (case children (h ! p) of
             None \<Rightarrow> False
           | Some cs \<Rightarrow> \<exists>child \<in> set cs. child < length h \<and> node_id (h ! child) = node_id (h ! node)))"

definition familyIdOf :: "heap \<Rightarrow> nat \<Rightarrow> string" where
  "familyIdOf h node =
     (let p1 = node_id (h ! the (parent (h ! node)))
      in case coParentId (h ! node) of
           None \<Rightarrow> p1
         | Some p2 \<Rightarrow> if p2 \<noteq> [] then sortedJoin p1 p2 else p1)"

definition addToFamily :: "string \<Rightarrow> nat \<Rightarrow> (string \<times> nat list) list \<Rightarrow> (string \<times> nat list) list" where
  "addToFamily familyId node families =
     (case map_of families familyId of
        None \<Rightarrow> families @ [(familyId, [node])]
      | Some members \<Rightarrow> AList.update familyId (members @ [node]) families)"

definition groupFamilies :: "heap \<Rightarrow> nat list \<Rightarrow> (string \<times> nat list) list" where
  "groupFamilies h ns =
     fold (\<lambda>node families.
             if listedByParent h node then addToFamily (familyIdOf h node) node families
             else families)
          ns []"

text \<open>
  The bus of a family: the statements from \<open>const busY\<close> to the end of the loop over
  the children, which are the same in the branch of a single parent and in the branch
  of two parents. A family is made with its first child, so \<open>children\<close> is not empty.
\<close>

definition busLinks :: "heap \<Rightarrow> real \<Rightarrow> real \<Rightarrow> real \<Rightarrow> string \<Rightarrow> nat list \<Rightarrow> TreeLink list" where
  "busLinks h NODE_WIDTH parentMidX parentMidY familyId cs =
     (let busY = parentMidY + Y_SPACING_BUS;
          sorted_children = sort_key (\<lambda>a. node_x (h ! a)) cs;
          minChildX = node_x (h ! hd sorted_children) + NODE_WIDTH / 2;
          maxChildX = node_x (h ! last sorted_children) + NODE_WIDTH / 2
      in [mkLink (''bus_v_main_'' @ familyId) (parentMidX, parentMidY, parentMidX, busY) None,
          mkLink (''bus_h_'' @ familyId)
                 (min parentMidX minChildX, busY, max parentMidX maxChildX, busY) None]
         @ map (\<lambda>child.
                  (let childMidX = node_x (h ! child) + NODE_WIDTH / 2
                   in mkLink (''bus_v_child_'' @ node_id (h ! child))
                             (childMidX, busY, childMidX, node_y (h ! child)) (Some True)))
               sorted_children)"

text \<open>Step 3: the body of the loop over \<open>families.entries()\<close>.\<close>

definition familyLinks :: "heap \<Rightarrow> real \<Rightarrow> real \<Rightarrow> nat list \<Rightarrow> string \<times> nat list \<Rightarrow> TreeLink list
                            \<Rightarrow> TreeLink list" where
  "familyLinks h NODE_WIDTH NODE_HEIGHT ns family newLinks =
     (case family of (familyId, cs) \<Rightarrow>
        if familyId = ''super-root'' then newLinks
        else
          (let parentIds = split_on CHR ''_'' familyId;
               parent1 = nodeMapGet h ns (parentIds ! 0)
           in if length parentIds = 1 \<and> parent1 \<noteq> None
              then
                (let p1 = h ! the parent1
                 in case cs of
                      [child] \<Rightarrow>
                        newLinks @
                        [mkLink (''pc_'' @ node_id p1 @ ''_'' @ node_id (h ! child))
                           (node_x p1 + NODE_WIDTH / 2, node_y p1 + NODE_HEIGHT,
                            node_x (h ! child) + NODE_WIDTH / 2, node_y (h ! child))
                           (Some True)]
                    | _ \<Rightarrow>
                        newLinks @
                        busLinks h NODE_WIDTH (node_x p1 + NODE_WIDTH / 2) (node_y p1 + NODE_HEIGHT)
                          familyId cs)
              else if length parentIds = 2
              then
                (case (parent1, nodeMapGet h ns (parentIds ! 1)) of
                   (Some p1, Some p2) \<Rightarrow>
                     (let partnerLinkId = ''p_'' @ parentIds ! 0 @ ''_'' @ parentIds ! 1;
                          found = find (\<lambda>l. link_id l = partnerLinkId) newLinks;
                          partnerLink =
                            (case found of
                               Some l \<Rightarrow> l
                             | None \<Rightarrow>
                                 mkLink partnerLinkId
                                   (getOptimalConnectionPoints NODE_WIDTH NODE_HEIGHT (h ! p1) (h ! p2))
                                   None);
                          newLinks' = (if found = None then newLinks @ [partnerLink] else newLinks);
                          parentMidX = (x1 partnerLink + x2 partnerLink) / 2;
                          parentMidY = (y1 partnerLink + y2 partnerLink) / 2
                      in case cs of
                           [child] \<Rightarrow>
                             newLinks' @
                             [mkLink (''fam_'' @ familyId @ ''-'' @ node_id (h ! child))
                                (parentMidX, parentMidY,
                                 node_x (h ! child) + NODE_WIDTH / 2, node_y (h ! child))
                                (Some True)]
                         | _ \<Rightarrow>
                             newLinks' @ busLinks h NODE_WIDTH parentMidX parentMidY familyId cs)
                 | _ \<Rightarrow> newLinks)
              else newLinks))"

definition calculateLinks :: "heap \<Rightarrow> real \<Rightarrow> real \<Rightarrow> nat list \<Rightarrow> TreeLink list" where
  "calculateLinks h NODE_WIDTH NODE_HEIGHT ns =
     fold (familyLinks h NODE_WIDTH NODE_HEIGHT ns) (groupFamilies h ns)
          (fold (partnerLinks h NODE_WIDTH NODE_HEIGHT) ns [])"

subsection \<open>handleNodePositionUpdate\<close>

record NodePositionUpdate =
  upd_id :: string
  upd_dx :: real
  upd_dy :: real
  isDragEnd :: "bool option"

text \<open>The state is the heap of the layout nodes and \<open>positionedData\<close>.\<close>

definition handleNodePositionUpdate :: "real \<Rightarrow> real \<Rightarrow> NodePositionUpdate \<Rightarrow> heap \<times> PositionedTreeData
                                         \<Rightarrow> heap \<times> PositionedTreeData" where
  "handleNodePositionUpdate NODE_WIDTH NODE_HEIGHT u st =
     (case st of (h, positionedData) \<Rightarrow>
        (case find (\<lambda>n. node_id (h ! n) = upd_id u) (pd_nodes positionedData) of
           None \<Rightarrow> (h, positionedData)
         | Some node \<Rightarrow>
             (let h' = h[node := (h ! node)\<lparr>node_x := node_x (h ! node) + upd_dx u,
                                           node_y := node_y (h ! node) + upd_dy u\<rparr>]
              in (h', positionedData
                        \<lparr>pd_links := calculateLinks h' NODE_WIDTH NODE_HEIGHT (pd_nodes positionedData)\<rparr>))))"



section \<open>cloneTreeWithoutCycles (utils/treeUtility.ts)\<close>

text \<open>
  The function copies any JavaScript value, so its model has values of its own: a value
  is a primitive (anything whose \<open>typeof\<close> is not \<open>object\<close>, and \<open>null\<close>) or a
  reference to an object, and an object is an array or a plain object with its own
  enumerable keys in the order of \<open>Object.keys\<close>. The objects to copy are in the heap
  \<open>src\<close>, which the function only reads; the copies it makes are in a heap of their
  own. A reference outside \<open>src\<close> denotes no object and is returned as it is.
\<close>

datatype jsprim = JUndefined | JNull | JBool bool | JNum real | JStr string

datatype jsval = Prim jsprim | Ref nat

datatype jsobj = Arr "jsval list" | Obj "(string \<times> jsval) list"

text \<open>
  \<open>seen\<close> is the \<open>WeakMap\<close> from an object to its copy: a key is set once, when the
  object has no entry.
\<close>

record CloneState =
  seen :: "(nat \<times> nat) list"
  copies :: "jsobj list"





section \<open>Example graphs\<close>

definition mkNode :: "string \<Rightarrow> nat option \<Rightarrow> nat list \<Rightarrow> nat list \<Rightarrow> string option
                       \<Rightarrow> real \<Rightarrow> real \<Rightarrow> nat option \<Rightarrow> PositionedTreeNode" where
  "mkNode i p ps cs co x y d =
     \<lparr>node_id = i, label = i, parent = p, partners = Some ps, children = Some cs,
      coParentId = co, node_image = None, node_x = x, node_y = y, depth = d\<rparr>"

text \<open>
  A root R with the children A and B; X is a partner of both A and B. Level 1 of the
  traversal is A, B, X.
\<close>

definition sharedPartner :: heap where
  "sharedPartner =
     [mkNode ''R'' None [] [1, 2] None 0 0 (Some 0),
      mkNode ''A'' (Some 0) [3] [] None 0 200 (Some 1),
      mkNode ''B'' (Some 0) [3] [] None 0 200 (Some 1),
      mkNode ''X'' None [1, 2] [] None 0 200 (Some 1)]"

text \<open>Three unrelated nodes of one level, out of order and too close to each other.\<close>

definition overlapping :: heap where
  "overlapping =
     [mkNode ''a'' None [] [] None 300 0 (Some 0),
      mkNode ''b'' None [] [] None 0 0 (Some 0),
      mkNode ''c'' None [] [] None 100 0 (Some 0)]"

text \<open>
  A store as the demo builds one: Alice, Bob and the child A are added, then Bob is made
  the parent of A with Alice as co-parent.
\<close>

definition person :: "string \<Rightarrow> FamilyTreeNodeInput" where
  "person i = \<lparr>in_id = i, in_label = i, in_coParentId = None, in_image = None\<rparr>"

definition emptyTree :: FamilyTree where
  "emptyTree = \<lparr>objects = [], nodes = []\<rparr>"

definition threePeople :: FamilyTree where
  "threePeople =
     snd (addNode (snd (addNode (snd (addNode emptyTree (person ''alice'') None [] []))
                                (person ''bob'') None [] []))
                  (person ''a'') None [] [])"

definition smallFamily :: FamilyTree where
  "smallFamily = snd (addParent threePeople ''a'' (person ''bob'') (Some (person ''alice'')))"






text \<open>A root R at (100, 0) with its only child C at (100, 200).\<close>

definition parentChild :: heap where
  "parentChild =
     [mkNode ''R'' None [] [1] None 100 0 (Some 0),
      mkNode ''C'' (Some 0) [] [] None 100 200 (Some 1)]"

text \<open>
  The graph with the shared partner as the clone hands it to the traversal: no parent
  references, no depths.
\<close>

definition sharedPartnerClone :: heap where
  "sharedPartnerClone =
     [mkNode ''R'' None [] [1, 2] None 0 0 None,
      mkNode ''A'' None [3] [] None 0 0 None,
      mkNode ''B'' None [3] [] None 0 0 None,
      mkNode ''X'' None [1, 2] [] None 0 0 None]"


text \<open>A layout step that places the root alone, to stand for the step of the watcher.\<close>

definition rootOnlyLayout :: "FamilyTree \<Rightarrow> nat \<Rightarrow> heap \<times> PositionedTreeData" where
  "rootOnlyLayout t r =
     ([mkNode (node_id (objects t ! r)) None [] [] None 0 0 (Some 0)],
      \<lparr>pd_nodes = [0], pd_links = [], pd_width = 160, pd_height = 120\<rparr>)"

section \<open>Invariants used in the proofs\<close>

text \<open>
  \<open>buildLayoutBlocks\<close>: the nodes placed so far have pairwise different ids, all of
  them recorded in \<open>used\<close>.
\<close>

definition blocks_inv :: "heap \<Rightarrow> nat list \<Rightarrow> string set \<Rightarrow> bool" where
  "blocks_inv h placed used \<longleftrightarrow>
     distinct (map (\<lambda>a. node_id (h ! a)) placed) \<and> (\<lambda>a. node_id (h ! a)) ` set placed \<subseteq> used"

text \<open>
  \<open>traverseAndAnnotateTree\<close>, for the heap \<open>h0\<close> and the root \<open>r\<close> it is called on;
  \<open>h\<close> is the heap at some turn of the loop, \<open>ns\<close> the flat list of nodes. The
  traversal writes \<open>depth\<close> and \<open>parent\<close> only, so ids, children and partners are read
  from \<open>h0\<close>.
\<close>

definition inv_shape :: "heap \<Rightarrow> heap \<Rightarrow> bool" where
  "inv_shape h0 h \<longleftrightarrow>
     length h = length h0 \<and>
     (\<forall>a < length h0. node_id (h ! a) = node_id (h0 ! a)
                    \<and> children (h ! a) = children (h0 ! a)
                    \<and> partners (h ! a) = partners (h0 ! a))"

text \<open>The visited ids are the ids of the nodes in the flat list, each of them once.\<close>

definition inv_nodes :: "heap \<Rightarrow> nat list \<Rightarrow> string set \<Rightarrow> bool" where
  "inv_nodes h0 ns visited \<longleftrightarrow>
     (\<forall>a \<in> set ns. a < length h0) \<and>
     distinct (map (\<lambda>a. node_id (h0 ! a)) ns) \<and>
     visited = (\<lambda>a. node_id (h0 ! a)) ` set ns"

text \<open>The bucket of a depth holds the nodes that were given this depth, in their order.\<close>

definition inv_levels :: "heap \<Rightarrow> nat list \<Rightarrow> (nat \<times> nat list) list \<Rightarrow> bool" where
  "inv_levels h ns nodesByDepth \<longleftrightarrow>
     distinct (map fst nodesByDepth) \<and>
     (\<forall>d. orEmpty (map_of nodesByDepth d) = filter (\<lambda>a. depth (h ! a) = Some d) ns) \<and>
     (\<forall>a \<in> set ns. depth (h ! a) \<noteq> None)"

text \<open>A recorded parent is a visited node one level up that lists the node as a child.\<close>

definition inv_parent :: "heap \<Rightarrow> heap \<Rightarrow> nat list \<Rightarrow> bool" where
  "inv_parent h0 h ns \<longleftrightarrow>
     (\<forall>a \<in> set ns. \<forall>p. parent (h ! a) = Some p \<longrightarrow>
        p \<in> set ns \<and> a \<in> set (orEmpty (children (h0 ! p))) \<and>
        depth (h ! a) = map_option Suc (depth (h ! p)))"

text \<open>
  A visited node without a recorded parent is the root at depth 0, or was queued by a
  visited node that lists it as a partner and has the same depth.
\<close>

definition inv_partner :: "heap \<Rightarrow> nat \<Rightarrow> heap \<Rightarrow> nat list \<Rightarrow> bool" where
  "inv_partner h0 r h ns \<longleftrightarrow>
     (\<forall>a \<in> set ns. parent (h ! a) = None \<longrightarrow>
        (a = r \<and> depth (h ! a) = Some 0) \<or>
        (\<exists>q \<in> set ns. a \<in> set (orEmpty (partners (h0 ! q))) \<and> depth (h ! a) = depth (h ! q)))"

text \<open>What an entry of the queue promises.\<close>

definition entry_ok :: "heap \<Rightarrow> nat \<Rightarrow> heap \<Rightarrow> nat list \<Rightarrow> QueueEntry \<Rightarrow> bool" where
  "entry_ok h0 r h ns e \<longleftrightarrow>
     q_node e < length h0 \<and>
     (case q_parent e of
        Some p \<Rightarrow> p \<in> set ns \<and> q_node e \<in> set (orEmpty (children (h0 ! p))) \<and>
                  Some (q_depth e) = map_option Suc (depth (h ! p))
      | None \<Rightarrow> (q_node e = r \<and> q_depth e = 0) \<or>
                (\<exists>q \<in> set ns. q_node e \<in> set (orEmpty (partners (h0 ! q))) \<and>
                                depth (h ! q) = Some (q_depth e)))"

text \<open>
  The nodes that the root leads to: the root, and every child and every partner, that
  is a node, of a node that the root leads to.
\<close>

inductive reachable :: "heap \<Rightarrow> nat \<Rightarrow> nat \<Rightarrow> bool" for h :: heap and r :: nat where
  root: "r < length h \<Longrightarrow> reachable h r r"
| child: "reachable h r q \<Longrightarrow> c \<in> set (orEmpty (children (h ! q))) \<Longrightarrow> c < length h
          \<Longrightarrow> reachable h r c"
| partner: "reachable h r q \<Longrightarrow> c \<in> set (orEmpty (partners (h ! q))) \<Longrightarrow> c < length h
          \<Longrightarrow> reachable h r c"

text \<open>Visited and queued nodes are nodes that the root leads to.\<close>

definition inv_reach :: "heap \<Rightarrow> nat \<Rightarrow> nat list \<Rightarrow> QueueEntry list \<Rightarrow> bool" where
  "inv_reach h0 r ns queue \<longleftrightarrow>
     (\<forall>a \<in> set ns. reachable h0 r a) \<and> (\<forall>e \<in> set queue. reachable h0 r (q_node e))"

text \<open>
  Nothing is lost: the id of a child or a partner of a visited node is visited, or it is
  the id of a node that waits in the queue.
\<close>

definition inv_pending :: "heap \<Rightarrow> nat list \<Rightarrow> string set \<Rightarrow> QueueEntry list \<Rightarrow> bool" where
  "inv_pending h0 ns visited queue \<longleftrightarrow>
     (\<forall>q \<in> set ns. \<forall>c \<in> set (orEmpty (children (h0 ! q)) @ orEmpty (partners (h0 ! q))).
        c < length h0 \<longrightarrow>
        node_id (h0 ! c) \<in> visited \<or>
        (\<exists>e \<in> set queue. node_id (h0 ! q_node e) = node_id (h0 ! c)))"

text \<open>
  Before the first turn the queue holds the root alone; from then on the root is the
  first node of the flat list, at depth 0 and without a parent.
\<close>

definition inv_root :: "nat \<Rightarrow> Traversal \<Rightarrow> bool" where
  "inv_root r s \<longleftrightarrow>
     (tr_nodes s = [] \<and> tr_visited s = {} \<and>
      tr_queue s = [\<lparr>q_node = r, q_depth = 0, q_parent = None\<rparr>]) \<or>
     (tr_nodes s \<noteq> [] \<and> hd (tr_nodes s) = r \<and>
      depth (tr_heap s ! r) = Some 0 \<and> parent (tr_heap s ! r) = None)"

definition trav_inv :: "heap \<Rightarrow> nat \<Rightarrow> Traversal \<Rightarrow> bool" where
  "trav_inv h0 r s \<longleftrightarrow>
     inv_root r s \<and>
     inv_shape h0 (tr_heap s) \<and> inv_nodes h0 (tr_nodes s) (tr_visited s) \<and>
     inv_levels (tr_heap s) (tr_nodes s) (tr_nodesByDepth s) \<and>
     inv_parent h0 (tr_heap s) (tr_nodes s) \<and> inv_partner h0 r (tr_heap s) (tr_nodes s) \<and>
     (\<forall>e \<in> set (tr_queue s). entry_ok h0 r (tr_heap s) (tr_nodes s) e) \<and>
     inv_reach h0 r (tr_nodes s) (tr_queue s) \<and>
     inv_pending h0 (tr_nodes s) (tr_visited s) (tr_queue s)"

text \<open>
  \<open>cloneTreeWithoutCycles\<close>. The objects of \<open>src\<close> that have no copy yet; every call
  that goes deeper takes one away.
\<close>

definition unseen :: "jsobj list \<Rightarrow> CloneState \<Rightarrow> nat" where
  "unseen src st = card {a. a < length src \<and> a \<notin> fst ` set (seen st)}"


section \<open>Proofs: basic facts\<close>

lemma orEmpty_simps [simp]: "orEmpty None = []" "orEmpty (Some xs) = xs"
  by (simp_all add: orEmpty_def)

lemma mkNode_sel [simp]:
  "node_id (mkNode i p ps cs co x y d) = i"
  "parent (mkNode i p ps cs co x y d) = p"
  "partners (mkNode i p ps cs co x y d) = Some ps"
  "children (mkNode i p ps cs co x y d) = Some cs"
  "coParentId (mkNode i p ps cs co x y d) = co"
  "node_x (mkNode i p ps cs co x y d) = x"
  "node_y (mkNode i p ps cs co x y d) = y"
  "depth (mkNode i p ps cs co x y d) = d"
  by (simp_all add: mkNode_def)

lemma mkNode_upd [simp]:
  "(mkNode i p ps cs co x y d)\<lparr>parent := p', depth := d'\<rparr> = mkNode i p' ps cs co x y d'"
  by (simp add: mkNode_def)

lemma count_list_filter:
  "count_list (filter P xs) a = (if P a then count_list xs a else 0)"
  by (induction xs) auto

lemma count_list_distinct:
  "distinct xs \<Longrightarrow> count_list xs a = (if a \<in> set xs then 1 else 0)"
  by (induction xs) auto

section \<open>Proofs: layout utilities\<close>

subsection \<open>preventOverlap\<close>

lemma length_sweep [simp]: "length (sweep h W S p rest) = length h"
  by (induction rest arbitrary: h p) auto

lemma sweep_frame: "a \<notin> set rest \<Longrightarrow> sweep h W S p rest ! a = h ! a"
  by (induction rest arbitrary: h p) auto

lemma sweep_moves_right: "node_x (h ! a) \<le> node_x (sweep h W S p rest ! a)"
proof (induction rest arbitrary: h p)
  case Nil
  then show ?case by simp
next
  case (Cons c rest)
  let ?h1 = "if node_x (h ! c) < node_x (h ! p) + W + S
             then h[c := (h ! c)\<lparr>node_x := node_x (h ! p) + W + S\<rparr>] else h"
  have "node_x (h ! a) \<le> node_x (?h1 ! a)"
    by (cases "a = c"; cases "c < length h") (auto simp: list_update_beyond)
  also have "\<dots> \<le> node_x (sweep ?h1 W S c rest ! a)" by (rule Cons.IH)
  finally show ?case by simp
qed

text \<open>
  After the sweep every node is at least one node width plus spacing to the right of
  its predecessor: the predecessor is final when the node is looked at, and the nodes
  looked at later are other objects.
\<close>

lemma sweep_gap:
  assumes "distinct (p # rest)" "\<forall>a\<in>set (p # rest). a < length h"
  shows "successively (\<lambda>a b. node_x (sweep h W S p rest ! a) + W + S \<le> node_x (sweep h W S p rest ! b))
           (p # rest)"
  using assms
proof (induction rest arbitrary: h p)
  case Nil
  then show ?case by simp
next
  case (Cons c rest)
  let ?h1 = "if node_x (h ! c) < node_x (h ! p) + W + S
             then h[c := (h ! c)\<lparr>node_x := node_x (h ! p) + W + S\<rparr>] else h"
  let ?h' = "sweep ?h1 W S c rest"
  have len: "length ?h1 = length h" by simp
  have IH: "successively (\<lambda>a b. node_x (?h' ! a) + W + S \<le> node_x (?h' ! b)) (c # rest)"
    using Cons.prems len by (intro Cons.IH) auto
  have p: "?h' ! p = h ! p"
    using Cons.prems by (simp add: sweep_frame)
  have c: "?h' ! c = ?h1 ! c"
    using Cons.prems by (simp add: sweep_frame)
  have "node_x (h ! p) + W + S \<le> node_x (?h1 ! c)"
    using Cons.prems by auto
  with p c IH show ?case by simp
qed

text \<open>With a width plus spacing that is not positive, a sorted level is left as it is.\<close>

lemma sweep_noop:
  assumes "sorted (map (\<lambda>a. node_x (h ! a)) (p # rest))" "W + S \<le> 0"
  shows "sweep h W S p rest = h"
  using assms
proof (induction rest arbitrary: p)
  case Nil
  then show ?case by simp
next
  case (Cons c rest)
  from Cons.prems have "node_x (h ! p) \<le> node_x (h ! c)" by simp
  with Cons.prems(2) have "\<not> node_x (h ! c) < node_x (h ! p) + W + S" by simp
  moreover have "sweep h W S c rest = h" using Cons.prems by (intro Cons.IH) auto
  ultimately show ?case by simp
qed

lemma successively_nth:
  "successively P xs \<Longrightarrow> Suc i < length xs \<Longrightarrow> P (xs ! i) (xs ! Suc i)"
proof (induction P xs arbitrary: i rule: successively.induct)
  case (3 P x y xs)
  then show ?case by (cases i) auto
qed simp_all

lemma sweep_sorted:
  assumes "distinct (p # rest)" "\<forall>a\<in>set (p # rest). a < length h"
    and "sorted (map (\<lambda>a. node_x (h ! a)) (p # rest))"
  shows "sorted (map (\<lambda>a. node_x (sweep h W S p rest ! a)) (p # rest))"
proof (cases "W + S \<le> 0")
  case True
  with assms(3) show ?thesis by (simp only: sweep_noop)
next
  case False
  let ?h' = "sweep h W S p rest"
  have "successively (\<lambda>a b. node_x (?h' ! a) + W + S \<le> node_x (?h' ! b)) (p # rest)"
    using assms(1,2) by (rule sweep_gap)
  then have "successively (\<lambda>a b. node_x (?h' ! a) \<le> node_x (?h' ! b)) (p # rest)"
    by (rule successively_mono) (use False in auto)
  then have "successively (\<le>) (map (\<lambda>a. node_x (?h' ! a)) (p # rest))"
    by (simp only: successively_map)
  then show ?thesis
    by (simp add: successively_conv_sorted_wrt)
qed

text \<open>
  Claim C2. After one call of \<open>preventOverlap\<close> on a level (a list of different node
  objects), the level holds the same nodes, is in ascending order of x, and every node
  is at least \<open>NODE_WIDTH + X_SPACING\<close> to the right of the node before it. Nodes are
  only pushed to the right.
\<close>

theorem preventOverlap_enforces_gap:
  assumes "distinct level" and "\<forall>a\<in>set level. a < length h"
    and "preventOverlap h level NODE_WIDTH X_SPACING = (h', level')"
  shows "set level' = set level \<and> distinct level'
       \<and> sorted (map (\<lambda>a. node_x (h' ! a)) level')
       \<and> (\<forall>i. Suc i < length level' \<longrightarrow>
             node_x (h' ! (level' ! Suc i)) \<ge> node_x (h' ! (level' ! i)) + NODE_WIDTH + X_SPACING)
       \<and> (\<forall>a. node_x (h ! a) \<le> node_x (h' ! a))"
proof -
  let ?key = "\<lambda>a. node_x (h ! a)"
  have lv: "level' = sort_key ?key level"
    using assms(3) by (auto simp: preventOverlap_def Let_def split: list.splits)
  have m: "set level' = set level \<and> distinct level'" using assms(1) by (simp add: lv)
  show ?thesis
  proof (cases level')
    case Nil
    with assms(3) lv have "h' = h" by (auto simp: preventOverlap_def Let_def split: list.splits)
    with Nil m show ?thesis by simp
  next
    case (Cons p rest)
    have h': "h' = sweep h NODE_WIDTH X_SPACING p rest"
      using assms(3) lv Cons by (auto simp: preventOverlap_def Let_def split: list.splits)
    have d: "distinct (p # rest)" using assms(1) lv Cons by (metis distinct_sort)
    have v: "\<forall>a\<in>set (p # rest). a < length h"
      using assms(2) lv Cons by (metis set_sort)
    have s: "sorted (map ?key (p # rest))" using lv Cons by (metis sorted_sort_key)
    have 1: "sorted (map (\<lambda>a. node_x (h' ! a)) level')"
      unfolding h' Cons using d v s by (rule sweep_sorted)
    have "successively (\<lambda>a b. node_x (h' ! a) + NODE_WIDTH + X_SPACING \<le> node_x (h' ! b)) level'"
      unfolding h' Cons using d v by (rule sweep_gap)
    then have 2: "\<forall>i. Suc i < length level' \<longrightarrow>
             node_x (h' ! (level' ! Suc i)) \<ge> node_x (h' ! (level' ! i)) + NODE_WIDTH + X_SPACING"
      using successively_nth by fastforce
    have 3: "\<forall>a. node_x (h ! a) \<le> node_x (h' ! a)"
      unfolding h' by (simp add: sweep_moves_right)
    from m 1 2 3 show ?thesis by simp
  qed
qed

text \<open>
  The level a (x = 300), b (x = 0), c (x = 100) with the default width 120 and spacing
  40: the order becomes b, c, a and c and a are pushed to 160 and 320.
\<close>

theorem preventOverlap_enforces_gap_witness:
  "preventOverlap overlapping [0, 1, 2] 120 40 =
     ([mkNode ''a'' None [] [] None 320 0 (Some 0),
       mkNode ''b'' None [] [] None 0 0 (Some 0),
       mkNode ''c'' None [] [] None 160 0 (Some 0)], [1, 2, 0])
   \<and> sorted (map (\<lambda>a. node_x (fst (preventOverlap overlapping [0, 1, 2] 120 40) ! a))
               (snd (preventOverlap overlapping [0, 1, 2] 120 40)))"
proof -
  have e: "preventOverlap overlapping [0, 1, 2] 120 40 =
     ([mkNode ''a'' None [] [] None 320 0 (Some 0),
       mkNode ''b'' None [] [] None 0 0 (Some 0),
       mkNode ''c'' None [] [] None 160 0 (Some 0)], [1, 2, 0])"
    by (simp add: preventOverlap_def overlapping_def mkNode_def)
  have "distinct [0::nat, 1, 2]" "\<forall>a\<in>set [0::nat, 1, 2]. a < length overlapping"
    by (simp_all add: overlapping_def)
  from preventOverlap_enforces_gap[OF this e] e show ?thesis by simp
qed

subsection \<open>buildLayoutBlocks and the watcher's own blocks\<close>

lemma pushPartner_inv:
  "blocks_inv h (before @ fst st) (snd st) \<Longrightarrow>
   blocks_inv h (before @ fst (pushPartner h p st)) (snd (pushPartner h p st))"
  by (cases st) (auto simp: pushPartner_def blocks_inv_def)

lemma fold_pushPartner_inv:
  "blocks_inv h (before @ fst st) (snd st) \<Longrightarrow>
   blocks_inv h (before @ fst (fold (pushPartner h) ps st)) (snd (fold (pushPartner h) ps st))"
  by (induction ps arbitrary: st) (simp_all add: pushPartner_inv)

lemma blockOfChild_inv:
  assumes "blocks_inv h (concat (fst st)) (snd st)"
  shows "blocks_inv h (concat (fst (blockOfChild h c st))) (snd (blockOfChild h c st))"
proof (cases st)
  case (Pair bs used)
  show ?thesis
  proof (cases "node_id (h ! c) \<in> used")
    case True
    with Pair assms show ?thesis by (simp add: blockOfChild_def)
  next
    case False
    let ?st0 = "([c], insert (node_id (h ! c)) used)"
    have "blocks_inv h (concat bs @ fst ?st0) (snd ?st0)"
      using assms Pair False by (auto simp: blocks_inv_def)
    from fold_pushPartner_inv[OF this, of "orEmpty (partners (h ! c))"]
    show ?thesis using Pair False
      by (auto simp: blockOfChild_def split: prod.splits)
  qed
qed

lemma fold_blockOfChild_inv:
  "blocks_inv h (concat (fst st)) (snd st) \<Longrightarrow>
   blocks_inv h (concat (fst (fold (blockOfChild h) cs st))) (snd (fold (blockOfChild h) cs st))"
  by (induction cs arbitrary: st) (simp_all add: blockOfChild_inv)

text \<open>
  \<open>buildLayoutBlocks\<close> skips what is placed: over all blocks of a sibling group no id
  occurs twice.
\<close>

lemma buildLayoutBlocks_distinct_ids:
  "distinct (map (\<lambda>a. node_id (h ! a)) (concat (buildLayoutBlocks h siblings)))"
  using fold_blockOfChild_inv[of h "([], {})" siblings]
  by (simp add: buildLayoutBlocks_def blocks_inv_def)

text \<open>
  Claim C4. The placement pass of the watcher builds its blocks inline and does not
  skip a partner that an earlier block already holds. For the siblings A and B that
  share the partner X it yields the blocks [A, X] and [B, X]: X is placed twice and the
  width of the row counts four nodes (600), where \<open>buildLayoutBlocks\<close> yields [A, X]
  and [B] (440).
\<close>

theorem inlineLayoutBlocks_duplicates_shared_partner:
  "inlineLayoutBlocks sharedPartner [1, 2] = [[1, 3], [2, 3]]
   \<and> \<not> distinct (concat (inlineLayoutBlocks sharedPartner [1, 2]))
   \<and> calculateTotalBlocksWidth (inlineLayoutBlocks sharedPartner [1, 2]) 120 40 = 600
   \<and> buildLayoutBlocks sharedPartner [1, 2] = [[1, 3], [2]]
   \<and> calculateTotalBlocksWidth (buildLayoutBlocks sharedPartner [1, 2]) 120 40 = 440"
  by (simp add: inlineLayoutBlocks_def inlineBlockOfChild_def buildLayoutBlocks_def blockOfChild_def
      pushPartner_def calculateTotalBlocksWidth_def sharedPartner_def mkNode_def)

subsection \<open>positionRootNodes\<close>

lemma length_fold_placeRoot [simp]:
  "length (fold (placeRoot tw n W y) ps h) = length h"
  by (induction ps arbitrary: h) (auto simp: placeRoot_def)

lemma fold_placeRoot_other:
  "a \<notin> snd ` set ps \<Longrightarrow> fold (placeRoot tw n W y) ps h ! a = h ! a"
  by (induction ps arbitrary: h) (auto simp: placeRoot_def)

lemma fold_placeRoot_at:
  assumes "distinct rs" "\<forall>a\<in>set rs. a < length h" "j < length rs"
  shows "fold (placeRoot tw n W y) (enumerate k rs) h ! (rs ! j) =
         (h ! (rs ! j))\<lparr>node_x := (tw / (real n + 1)) * (real (k + j) + 1) - W / 2, node_y := y\<rparr>"
  using assms
proof (induction rs arbitrary: k h j)
  case Nil
  then show ?case by simp
next
  case (Cons r rs)
  show ?case
  proof (cases j)
    case 0
    have "r \<notin> snd ` set (enumerate (Suc k) rs)" using Cons.prems(1) by (auto simp: in_set_enumerate_eq)
    then show ?thesis using 0 Cons.prems
      by (simp add: fold_placeRoot_other) (simp add: placeRoot_def)
  next
    case (Suc j')
    let ?h1 = "placeRoot tw n W y (k, r) h"
    have len: "length ?h1 = length h" by (simp add: placeRoot_def)
    have ne: "rs ! j' \<noteq> r" using Cons.prems Suc by auto
    have "fold (placeRoot tw n W y) (enumerate (Suc k) rs) ?h1 ! (rs ! j') =
         (?h1 ! (rs ! j'))\<lparr>node_x := (tw / (real n + 1)) * (real (Suc k + j') + 1) - W / 2, node_y := y\<rparr>"
      using Cons.prems Suc len by (intro Cons.IH) auto
    moreover have "?h1 ! (rs ! j') = h ! (rs ! j')" using ne by (simp add: placeRoot_def)
    ultimately show ?thesis using Suc by simp
  qed
qed

text \<open>
  Claim C5, as the code has it. The i-th parentless node of a level is placed at
  x = totalWidth / (n + 1) * (i + 1) - NODE_WIDTH / 2 and at the level's y, where n is
  the number of all nodes of the level (\<open>level.length\<close>), parentless or not. Only the
  position changes, and the other nodes are left alone.
\<close>

theorem positionRootNodes_spreads_parentless:
  assumes "distinct level" and "\<forall>a\<in>set level. a < length h"
    and "i < length (filter (\<lambda>node. parent (h ! node) = None) level)"
  shows "positionRootNodes h level totalWidth NODE_WIDTH y
           ! (filter (\<lambda>node. parent (h ! node) = None) level ! i)
         = (h ! (filter (\<lambda>node. parent (h ! node) = None) level ! i))
             \<lparr>node_x := (totalWidth / (real (length level) + 1)) * (real i + 1) - NODE_WIDTH / 2,
              node_y := y\<rparr>
       \<and> (\<forall>a. a \<notin> set (filter (\<lambda>node. parent (h ! node) = None) level)
              \<longrightarrow> positionRootNodes h level totalWidth NODE_WIDTH y ! a = h ! a)"
proof -
  let ?roots = "filter (\<lambda>node. parent (h ! node) = None) level"
  have 1: "positionRootNodes h level totalWidth NODE_WIDTH y ! (?roots ! i)
         = (h ! (?roots ! i))
             \<lparr>node_x := (totalWidth / (real (length level) + 1)) * (real i + 1) - NODE_WIDTH / 2,
              node_y := y\<rparr>"
    using fold_placeRoot_at[of ?roots h i totalWidth "length level" NODE_WIDTH y 0] assms
    by (simp add: positionRootNodes_def)
  have 2: "positionRootNodes h level totalWidth NODE_WIDTH y ! a = h ! a" if "a \<notin> set ?roots" for a
  proof -
    have "snd ` set (enumerate 0 ?roots) = set (map snd (enumerate 0 ?roots))"
      by (simp only: set_map)
    then have "a \<notin> snd ` set (enumerate 0 ?roots)"
      using that by (simp only: map_snd_enumerate) simp
    then show ?thesis by (simp add: positionRootNodes_def fold_placeRoot_other)
  qed
  from 1 2 show ?thesis by blast
qed

text \<open>
  Level 1 of the graph with the shared partner is A, B, X; X is its only parentless
  node. With totalWidth 480 it is placed at 480 / 4 - 60 = 60.
\<close>

theorem positionRootNodes_spreads_parentless_witness:
  "positionRootNodes sharedPartner [1, 2, 3] 480 120 200 ! 3 = mkNode ''X'' None [1, 2] [] None 60 200 (Some 1)
   \<and> positionRootNodes sharedPartner [1, 2, 3] 480 120 200 ! 1 = sharedPartner ! 1"
proof -
  have f: "filter (\<lambda>node. parent (sharedPartner ! node) = None) [1, 2, 3] = [3]"
    by (simp add: sharedPartner_def mkNode_def)
  have d: "distinct [1::nat, 2, 3]" and v: "\<forall>a\<in>set [1::nat, 2, 3]. a < length sharedPartner"
    by (simp_all add: sharedPartner_def)
  have i: "0 < length (filter (\<lambda>node. parent (sharedPartner ! node) = None) [1, 2, 3])"
    unfolding f by simp
  have n: "1 \<notin> set (filter (\<lambda>node. parent (sharedPartner ! node) = None) [1, 2, 3])"
    unfolding f by simp
  from positionRootNodes_spreads_parentless[OF d v i, of 480 120 200] n
  have "positionRootNodes sharedPartner [1, 2, 3] 480 120 200 ! ([3] ! 0)
          = (sharedPartner ! ([3] ! 0))\<lparr>node_x := 480 / (real (length [1::nat, 2, 3]) + 1) * (real 0 + 1) - 120 / 2,
                                        node_y := 200\<rparr>
        \<and> positionRootNodes sharedPartner [1, 2, 3] 480 120 200 ! 1 = sharedPartner ! 1"
    unfolding f by blast
  then show ?thesis by (simp add: sharedPartner_def mkNode_def)
qed

text \<open>
  The claim as stated takes n to be the number of parentless nodes. In the level A, B,
  X that is 1, which would put X at 480 / 2 - 60 = 180; the code puts it at 60.
\<close>

theorem positionRootNodes_divisor_counterexample:
  "\<not> (\<forall>h level totalWidth NODE_WIDTH y i.
        distinct level \<and> (\<forall>a\<in>set level. a < length h)
        \<and> i < length (filter (\<lambda>node. parent (h ! node) = None) level) \<longrightarrow>
        node_x (positionRootNodes h level totalWidth NODE_WIDTH y
                   ! (filter (\<lambda>node. parent (h ! node) = None) level ! i))
           = (totalWidth / (real (length (filter (\<lambda>node. parent (h ! node) = None) level)) + 1))
               * (real i + 1) - NODE_WIDTH / 2)"
proof
  assume a: "\<forall>h level totalWidth NODE_WIDTH y i.
        distinct level \<and> (\<forall>a\<in>set level. a < length h)
        \<and> i < length (filter (\<lambda>node. parent (h ! node) = None) level) \<longrightarrow>
        node_x (positionRootNodes h level totalWidth NODE_WIDTH y
                   ! (filter (\<lambda>node. parent (h ! node) = None) level ! i))
           = (totalWidth / (real (length (filter (\<lambda>node. parent (h ! node) = None) level)) + 1))
               * (real i + 1) - NODE_WIDTH / 2"
  have "node_x (positionRootNodes sharedPartner [1, 2, 3] 480 120 200 ! 3) = 60"
    by (simp add: positionRootNodes_def placeRoot_def sharedPartner_def mkNode_def)
  moreover from a[rule_format, of "[1, 2, 3]" sharedPartner 0 480 120 200]
  have "node_x (positionRootNodes sharedPartner [1, 2, 3] 480 120 200 ! 3) = 180"
    by (simp add: sharedPartner_def mkNode_def)
  ultimately show False by simp
qed

section \<open>Proofs: the traversal\<close>

declare traverseLoop.simps [simp del]

subsection \<open>One turn of the loop\<close>

lemma visit_skip:
  assumes "tr_queue s = e # rest"
    and "\<not> q_node e < length (tr_heap s) \<or> node_id (tr_heap s ! q_node e) \<in> tr_visited s"
  shows "visit s = s\<lparr>tr_queue := rest\<rparr>"
  using assms by (auto simp: visit_def Let_def)

lemma visit_fresh:
  assumes "tr_queue s = e # rest" "q_node e < length (tr_heap s)"
    and "node_id (tr_heap s ! q_node e) \<notin> tr_visited s"
  shows "visit s =
     \<lparr>tr_heap = (tr_heap s)[q_node e := (tr_heap s ! q_node e)\<lparr>parent := q_parent e, depth := Some (q_depth e)\<rparr>],
      tr_queue = rest
        @ childEntries ((tr_heap s)[q_node e := (tr_heap s ! q_node e)\<lparr>parent := q_parent e, depth := Some (q_depth e)\<rparr>])
            (insert (node_id (tr_heap s ! q_node e)) (tr_visited s)) (q_node e) (q_depth e)
        @ partnerEntries ((tr_heap s)[q_node e := (tr_heap s ! q_node e)\<lparr>parent := q_parent e, depth := Some (q_depth e)\<rparr>])
            (insert (node_id (tr_heap s ! q_node e)) (tr_visited s)) (q_node e) (q_depth e),
      tr_visited = insert (node_id (tr_heap s ! q_node e)) (tr_visited s),
      tr_nodes = tr_nodes s @ [q_node e],
      tr_nodesByDepth = pushAtDepth (q_depth e) (q_node e) (tr_nodesByDepth s)\<rparr>"
  using assms by (simp add: visit_def Let_def)

lemma skip_preserves:
  assumes "trav_inv h0 r s" "tr_queue s = e # rest"
    and "\<not> q_node e < length (tr_heap s) \<or> node_id (tr_heap s ! q_node e) \<in> tr_visited s"
  shows "trav_inv h0 r (s\<lparr>tr_queue := rest\<rparr>)"
proof -
  from assms(1,2) have e: "entry_ok h0 r (tr_heap s) (tr_nodes s) e"
    and len: "length (tr_heap s) = length h0"
    by (simp_all add: trav_inv_def inv_shape_def)
  then have "q_node e < length (tr_heap s)" by (simp add: entry_ok_def)
  with assms(3) have "tr_visited s \<noteq> {}" by auto
  with assms(1) have 0: "inv_root r (s\<lparr>tr_queue := rest\<rparr>)"
    by (auto simp: trav_inv_def inv_root_def)
  from assms(1,2) have 1: "inv_reach h0 r (tr_nodes s) rest"
    by (simp add: trav_inv_def inv_reach_def)
  from e have e0: "q_node e < length h0" by (simp add: entry_ok_def)
  with assms(1) have "node_id (tr_heap s ! q_node e) = node_id (h0 ! q_node e)"
    by (simp add: trav_inv_def inv_shape_def)
  with assms(3) e0 len have v: "node_id (h0 ! q_node e) \<in> tr_visited s" by auto
  from assms(1,2) have "inv_pending h0 (tr_nodes s) (tr_visited s) (e # rest)"
    by (simp add: trav_inv_def)
  with v have 2: "inv_pending h0 (tr_nodes s) (tr_visited s) rest"
    unfolding inv_pending_def by (metis set_ConsD)
  from assms(1,2) 0 1 2 show ?thesis by (simp add: trav_inv_def)
qed

lemma root_fresh:
  assumes "inv_root r s" "tr_queue s = e # rest" "q_node e < length (tr_heap s)"
    and "q_node e \<notin> set (tr_nodes s)"
  shows "inv_root r
           \<lparr>tr_heap = (tr_heap s)[q_node e := (tr_heap s ! q_node e)\<lparr>parent := q_parent e,
                                                                     depth := Some (q_depth e)\<rparr>],
            tr_queue = q', tr_visited = V', tr_nodes = tr_nodes s @ [q_node e],
            tr_nodesByDepth = nbd'\<rparr>"
proof (cases "tr_nodes s = []")
  case True
  with assms(1,2) have "e = \<lparr>q_node = r, q_depth = 0, q_parent = None\<rparr>"
    by (simp add: inv_root_def)
  then show ?thesis using True assms(3) by (simp add: inv_root_def)
next
  case False
  with assms(1) have r: "hd (tr_nodes s) = r" "depth (tr_heap s ! r) = Some 0"
    "parent (tr_heap s ! r) = None"
    by (simp_all add: inv_root_def)
  from False r(1) have "r \<in> set (tr_nodes s)" by (metis hd_in_set)
  with assms(4) have "q_node e \<noteq> r" by auto
  then show ?thesis using False r by (simp add: inv_root_def)
qed

lemma map_of_pushAtDepth:
  "map_of (pushAtDepth d n nbd) d' =
     (if d' = d then Some (orEmpty (map_of nbd d) @ [n]) else map_of nbd d')"
  by (auto simp: pushAtDepth_def orEmpty_def update_conv' map_add_def split: option.splits)

lemma distinct_pushAtDepth:
  "distinct (map fst nbd) \<Longrightarrow> distinct (map fst (pushAtDepth d n nbd))"
  by (auto simp: pushAtDepth_def distinct_update split: option.splits dest: map_of_eq_None_iff[THEN iffD1])


subsection \<open>The invariant when a node is visited\<close>

lemma shape_fresh:
  assumes "inv_shape h0 h"
  shows "inv_shape h0 (h[a := (h ! a)\<lparr>parent := par, depth := Some d\<rparr>])"
proof (cases "a < length h")
  case True
  then show ?thesis using assms by (auto simp: inv_shape_def nth_list_update)
next
  case False
  then show ?thesis using assms by (simp add: list_update_beyond)
qed

lemma not_in_nodes:
  assumes "inv_nodes h0 ns V" "inv_shape h0 h" "a < length h0" "node_id (h ! a) \<notin> V"
  shows "a \<notin> set ns"
  using assms by (auto simp: inv_nodes_def inv_shape_def)

lemma nodes_fresh:
  assumes "inv_nodes h0 ns V" "inv_shape h0 h" "a < length h0" "node_id (h ! a) \<notin> V"
  shows "inv_nodes h0 (ns @ [a]) (insert (node_id (h ! a)) V)"
  using assms by (auto simp: inv_nodes_def inv_shape_def)

lemma levels_fresh:
  assumes "inv_levels h ns nbd" "a \<notin> set ns" "a < length h"
  shows "inv_levels (h[a := (h ! a)\<lparr>parent := par, depth := Some d\<rparr>]) (ns @ [a])
           (pushAtDepth d a nbd)"
proof -
  let ?h' = "h[a := (h ! a)\<lparr>parent := par, depth := Some d\<rparr>]"
  have same: "?h' ! b = h ! b" if "b \<in> set ns" for b
  proof -
    from that assms(2) have "a \<noteq> b" by blast
    then show ?thesis by simp
  qed
  have f: "filter (\<lambda>b. depth (?h' ! b) = Some d') ns = filter (\<lambda>b. depth (h ! b) = Some d') ns" for d'
    by (rule filter_cong) (simp_all add: same)
  have a: "depth (?h' ! a) = Some d" using assms(3) by simp
  have 1: "distinct (map fst (pushAtDepth d a nbd))"
    using assms(1) by (simp add: inv_levels_def distinct_pushAtDepth)
  have 2: "orEmpty (map_of (pushAtDepth d a nbd) d')
            = filter (\<lambda>b. depth (?h' ! b) = Some d') (ns @ [a])" for d'
    using assms(1) by (simp add: inv_levels_def map_of_pushAtDepth f a)
  have 3: "\<forall>b \<in> set (ns @ [a]). depth (?h' ! b) \<noteq> None"
    using assms(1) a same by (auto simp: inv_levels_def)
  from 1 2 3 show ?thesis unfolding inv_levels_def by blast
qed

lemma parent_fresh:
  assumes "inv_parent h0 h ns" "a \<notin> set ns" "a < length h"
    and "entry_ok h0 r h ns e" "q_node e = a" "q_depth e = d" "q_parent e = par"
  shows "inv_parent h0 (h[a := (h ! a)\<lparr>parent := par, depth := Some d\<rparr>]) (ns @ [a])"
proof -
  let ?h' = "h[a := (h ! a)\<lparr>parent := par, depth := Some d\<rparr>]"
  have same: "?h' ! b = h ! b" if "b \<in> set ns" for b
  proof -
    from that assms(2) have "a \<noteq> b" by blast
    then show ?thesis by simp
  qed
  have a: "parent (?h' ! a) = par" "depth (?h' ! a) = Some d" using assms(3) by simp_all
  have old: "p \<in> set (ns @ [a]) \<and> b \<in> set (orEmpty (children (h0 ! p))) \<and>
             depth (?h' ! b) = map_option Suc (depth (?h' ! p))"
    if "b \<in> set ns" "parent (?h' ! b) = Some p" for b p
  proof -
    from that have "parent (h ! b) = Some p" by (simp add: same)
    with assms(1) that(1) have "p \<in> set ns" "b \<in> set (orEmpty (children (h0 ! p)))"
      "depth (h ! b) = map_option Suc (depth (h ! p))"
      by (auto simp: inv_parent_def)
    then show ?thesis using that(1) by (simp add: same)
  qed
  have new: "p \<in> set (ns @ [a]) \<and> a \<in> set (orEmpty (children (h0 ! p))) \<and>
             depth (?h' ! a) = map_option Suc (depth (?h' ! p))"
    if "parent (?h' ! a) = Some p" for p
  proof -
    from that a have "par = Some p" by simp
    with assms(4-7) have p: "p \<in> set ns" "a \<in> set (orEmpty (children (h0 ! p)))"
      and d: "map_option Suc (depth (h ! p)) = Some d"
      by (auto simp: entry_ok_def)
    have "?h' ! p = h ! p" using p(1) by (rule same)
    then show ?thesis using a p d by auto
  qed
  show ?thesis unfolding inv_parent_def using old new by auto
qed

lemma partner_fresh:
  assumes "inv_partner h0 r h ns" "a \<notin> set ns" "a < length h"
    and "entry_ok h0 r h ns e" "q_node e = a" "q_depth e = d" "q_parent e = par"
  shows "inv_partner h0 r (h[a := (h ! a)\<lparr>parent := par, depth := Some d\<rparr>]) (ns @ [a])"
proof -
  let ?h' = "h[a := (h ! a)\<lparr>parent := par, depth := Some d\<rparr>]"
  have same: "?h' ! b = h ! b" if "b \<in> set ns" for b
  proof -
    from that assms(2) have "a \<noteq> b" by blast
    then show ?thesis by simp
  qed
  have a: "parent (?h' ! a) = par" "depth (?h' ! a) = Some d" using assms(3) by simp_all
  have old: "(b = r \<and> depth (?h' ! b) = Some 0) \<or>
             (\<exists>q \<in> set (ns @ [a]). b \<in> set (orEmpty (partners (h0 ! q))) \<and>
                                     depth (?h' ! b) = depth (?h' ! q))"
    if "b \<in> set ns" "parent (?h' ! b) = None" for b
  proof -
    from that have "parent (h ! b) = None" by (simp add: same)
    with assms(1) that(1) have "(b = r \<and> depth (h ! b) = Some 0) \<or>
        (\<exists>q \<in> set ns. b \<in> set (orEmpty (partners (h0 ! q))) \<and> depth (h ! b) = depth (h ! q))"
      by (auto simp: inv_partner_def)
    then show ?thesis using that(1) same by auto
  qed
  have new: "(a = r \<and> depth (?h' ! a) = Some 0) \<or>
             (\<exists>q \<in> set (ns @ [a]). a \<in> set (orEmpty (partners (h0 ! q))) \<and>
                                     depth (?h' ! a) = depth (?h' ! q))"
    if "parent (?h' ! a) = None"
  proof -
    from that a have "par = None" by simp
    with assms(4-7) have "(a = r \<and> d = 0) \<or>
        (\<exists>q \<in> set ns. a \<in> set (orEmpty (partners (h0 ! q))) \<and> depth (h ! q) = Some d)"
      by (auto simp: entry_ok_def)
    then show ?thesis using a same by auto
  qed
  show ?thesis unfolding inv_partner_def using old new by auto
qed

lemma entry_fresh:
  assumes "entry_ok h0 r h ns e'" "a \<notin> set ns"
  shows "entry_ok h0 r (h[a := (h ! a)\<lparr>parent := par, depth := Some d\<rparr>]) (ns @ [a]) e'"
proof -
  let ?h' = "h[a := (h ! a)\<lparr>parent := par, depth := Some d\<rparr>]"
  have same: "?h' ! b = h ! b" if "b \<in> set ns" for b
  proof -
    from that assms(2) have "a \<noteq> b" by blast
    then show ?thesis by simp
  qed
  show ?thesis
  proof (cases "q_parent e'")
    case None
    with assms(1) show ?thesis using same by (auto simp: entry_ok_def)
  next
    case (Some p)
    with assms(1) show ?thesis using same by (auto simp: entry_ok_def)
  qed
qed

lemma childEntries_ok:
  assumes "inv_shape h0 h'" "a < length h0" "depth (h' ! a) = Some d" "a \<in> set ns'"
    and "e' \<in> set (childEntries h' V' a d)"
  shows "entry_ok h0 r h' ns' e'"
  using assms by (auto simp: childEntries_def entry_ok_def inv_shape_def)

lemma partnerEntries_ok:
  assumes "inv_shape h0 h'" "a < length h0" "depth (h' ! a) = Some d" "a \<in> set ns'"
    and "e' \<in> set (partnerEntries h' V' a d)"
  shows "entry_ok h0 r h' ns' e'"
  using assms by (auto simp: partnerEntries_def entry_ok_def inv_shape_def)

lemma reach_fresh:
  assumes "inv_reach h0 r ns (e # rest)" "inv_shape h0 h'" "q_node e < length h0"
  shows "inv_reach h0 r (ns @ [q_node e])
           (rest @ childEntries h' V (q_node e) d @ partnerEntries h' V (q_node e) d)"
proof -
  let ?a = "q_node e"
  from assms(1) have a: "reachable h0 r ?a" and ns: "\<forall>b \<in> set ns. reachable h0 r b"
    and rest: "\<forall>e' \<in> set rest. reachable h0 r (q_node e')"
    by (simp_all add: inv_reach_def)
  from assms(2,3) have same: "children (h' ! ?a) = children (h0 ! ?a)"
    "partners (h' ! ?a) = partners (h0 ! ?a)" and len: "length h' = length h0"
    by (simp_all add: inv_shape_def)
  have c: "reachable h0 r (q_node e')" if "e' \<in> set (childEntries h' V ?a d)" for e'
  proof -
    from that have "q_node e' \<in> set (orEmpty (children (h0 ! ?a)))" "q_node e' < length h0"
      by (auto simp: childEntries_def same len)
    with a show ?thesis by (rule reachable.child)
  qed
  have p: "reachable h0 r (q_node e')" if "e' \<in> set (partnerEntries h' V ?a d)" for e'
  proof -
    from that have "q_node e' \<in> set (orEmpty (partners (h0 ! ?a)))" "q_node e' < length h0"
      by (auto simp: partnerEntries_def same len)
    with a show ?thesis by (rule reachable.partner)
  qed
  from a ns rest c p show ?thesis by (auto simp: inv_reach_def)
qed

lemma pending_fresh:
  assumes "inv_pending h0 ns V (e # rest)" "inv_shape h0 h'" "q_node e < length h0"
  shows "inv_pending h0 (ns @ [q_node e]) (insert (node_id (h0 ! q_node e)) V)
           (rest @ childEntries h' (insert (node_id (h0 ! q_node e)) V) (q_node e) d
                 @ partnerEntries h' (insert (node_id (h0 ! q_node e)) V) (q_node e) d)"
proof -
  let ?a = "q_node e"
  let ?V = "insert (node_id (h0 ! ?a)) V"
  let ?Q = "rest @ childEntries h' ?V ?a d @ partnerEntries h' ?V ?a d"
  from assms(2,3) have same: "children (h' ! ?a) = children (h0 ! ?a)"
    "partners (h' ! ?a) = partners (h0 ! ?a)" and len: "length h' = length h0"
    by (simp_all add: inv_shape_def)
  from assms(2) have ids: "node_id (h' ! c) = node_id (h0 ! c)" if "c < length h0" for c
    using that by (simp add: inv_shape_def)
  have old: "node_id (h0 ! c) \<in> ?V \<or> (\<exists>e' \<in> set ?Q. node_id (h0 ! q_node e') = node_id (h0 ! c))"
    if "q \<in> set ns" "c \<in> set (orEmpty (children (h0 ! q)) @ orEmpty (partners (h0 ! q)))"
      "c < length h0" for q c
  proof -
    from assms(1) that have "node_id (h0 ! c) \<in> V \<or>
        (\<exists>e' \<in> set (e # rest). node_id (h0 ! q_node e') = node_id (h0 ! c))"
      unfolding inv_pending_def by blast
    then show ?thesis by auto
  qed
  have new: "node_id (h0 ! c) \<in> ?V \<or> (\<exists>e' \<in> set ?Q. node_id (h0 ! q_node e') = node_id (h0 ! c))"
    if "c \<in> set (orEmpty (children (h0 ! ?a)) @ orEmpty (partners (h0 ! ?a)))"
      "c < length h0" for c
  proof (cases "node_id (h0 ! c) \<in> ?V")
    case True
    then show ?thesis by simp
  next
    case False
    from that(1) consider "c \<in> set (orEmpty (children (h0 ! ?a)))"
      | "c \<in> set (orEmpty (partners (h0 ! ?a)))" by auto
    then have "\<exists>e' \<in> set ?Q. q_node e' = c"
    proof cases
      case 1
      with False that(2) have "\<lparr>q_node = c, q_depth = d + 1, q_parent = Some ?a\<rparr>
          \<in> set (childEntries h' ?V ?a d)"
        by (simp add: childEntries_def same len ids)
      then show ?thesis by force
    next
      case 2
      with False that(2) have "\<lparr>q_node = c, q_depth = d, q_parent = None\<rparr>
          \<in> set (partnerEntries h' ?V ?a d)"
        by (simp add: partnerEntries_def same len ids)
      then show ?thesis by force
    qed
    then show ?thesis by blast
  qed
  from old new show ?thesis unfolding inv_pending_def by auto
qed

lemma visit_preserves:
  assumes "trav_inv h0 r s"
  shows "trav_inv h0 r (visit s)"
proof (cases "tr_queue s")
  case Nil
  then show ?thesis using assms by (simp add: visit_def)
next
  case (Cons e rest)
  let ?h = "tr_heap s" and ?ns = "tr_nodes s" and ?a = "q_node e"
  show ?thesis
  proof (cases "?a < length ?h \<and> node_id (?h ! ?a) \<notin> tr_visited s")
    case False
    then have "visit s = s\<lparr>tr_queue := rest\<rparr>" using Cons by (intro visit_skip) auto
    then show ?thesis using skip_preserves[OF assms Cons] False by auto
  next
    case True
    let ?h' = "?h[?a := (?h ! ?a)\<lparr>parent := q_parent e, depth := Some (q_depth e)\<rparr>]"
    let ?V' = "insert (node_id (?h ! ?a)) (tr_visited s)"
    from assms have rt: "inv_root r s" by (simp add: trav_inv_def)
    from assms have sh: "inv_shape h0 ?h" and nd: "inv_nodes h0 ?ns (tr_visited s)"
      and lv: "inv_levels ?h ?ns (tr_nodesByDepth s)" and pa: "inv_parent h0 ?h ?ns"
      and pt: "inv_partner h0 r ?h ?ns" and qu: "\<forall>e' \<in> set (tr_queue s). entry_ok h0 r ?h ?ns e'"
      and re: "inv_reach h0 r ?ns (e # rest)" and pe: "inv_pending h0 ?ns (tr_visited s) (e # rest)"
      by (simp_all add: trav_inv_def Cons)
    have len: "length ?h = length h0" using sh by (simp add: inv_shape_def)
    have a0: "?a < length h0" using True len by simp
    have fresh: "?a \<notin> set ?ns" using not_in_nodes[OF nd sh a0] True by simp
    have e: "entry_ok h0 r ?h ?ns e"
      using qu Cons by simp
    have da: "depth (?h' ! ?a) = Some (q_depth e)" using True by simp
    have v: "visit s =
      \<lparr>tr_heap = ?h',
       tr_queue = rest @ childEntries ?h' ?V' ?a (q_depth e) @ partnerEntries ?h' ?V' ?a (q_depth e),
       tr_visited = ?V', tr_nodes = ?ns @ [?a],
       tr_nodesByDepth = pushAtDepth (q_depth e) ?a (tr_nodesByDepth s)\<rparr>"
      using Cons True by (intro visit_fresh) auto
    have 0: "inv_root r
               \<lparr>tr_heap = ?h',
                tr_queue = rest @ childEntries ?h' ?V' ?a (q_depth e) @ partnerEntries ?h' ?V' ?a (q_depth e),
                tr_visited = ?V', tr_nodes = ?ns @ [?a],
                tr_nodesByDepth = pushAtDepth (q_depth e) ?a (tr_nodesByDepth s)\<rparr>"
      using rt Cons True fresh by (intro root_fresh) auto
    have 1: "inv_shape h0 ?h'" using sh by (rule shape_fresh)
    have 2: "inv_nodes h0 (?ns @ [?a]) ?V'" using nd sh a0 True by (intro nodes_fresh) auto
    have 3: "inv_levels ?h' (?ns @ [?a]) (pushAtDepth (q_depth e) ?a (tr_nodesByDepth s))"
      using lv fresh True by (intro levels_fresh) auto
    have 4: "inv_parent h0 ?h' (?ns @ [?a])"
      using pa fresh True e by (intro parent_fresh) auto
    have 5: "inv_partner h0 r ?h' (?ns @ [?a])"
      using pt fresh True e by (intro partner_fresh) auto
    have 6: "entry_ok h0 r ?h' (?ns @ [?a]) e'"
      if "e' \<in> set (rest @ childEntries ?h' ?V' ?a (q_depth e) @ partnerEntries ?h' ?V' ?a (q_depth e))"
      for e'
    proof -
      from that consider "e' \<in> set rest" | "e' \<in> set (childEntries ?h' ?V' ?a (q_depth e))"
        | "e' \<in> set (partnerEntries ?h' ?V' ?a (q_depth e))" by auto
      then show ?thesis
      proof cases
        case 1
        then have "entry_ok h0 r ?h ?ns e'" using qu Cons by simp
        then show ?thesis using fresh by (rule entry_fresh)
      next
        case 2
        show ?thesis by (rule childEntries_ok[OF 1 a0 da _ 2]) simp
      next
        case 3
        show ?thesis by (rule partnerEntries_ok[OF 1 a0 da _ 3]) simp
      qed
    qed
    have ida: "node_id (?h ! ?a) = node_id (h0 ! ?a)" using sh a0 by (simp add: inv_shape_def)
    have 7: "inv_reach h0 r (?ns @ [?a])
               (rest @ childEntries ?h' ?V' ?a (q_depth e) @ partnerEntries ?h' ?V' ?a (q_depth e))"
      using re 1 a0 by (rule reach_fresh)
    have 8: "inv_pending h0 (?ns @ [?a]) ?V'
               (rest @ childEntries ?h' ?V' ?a (q_depth e) @ partnerEntries ?h' ?V' ?a (q_depth e))"
      unfolding ida using pe 1 a0 by (rule pending_fresh)
    show ?thesis unfolding v trav_inv_def using 0 1 2 3 4 5 6 7 8 by simp
  qed
qed

lemma traverseLoop_preserves:
  "trav_inv h0 r s \<Longrightarrow> trav_inv h0 r (traverseLoop s) \<and> tr_queue (traverseLoop s) = []"
proof (induction s rule: traverseLoop.induct)
  case (1 s)
  show ?case
  proof (cases "tr_queue s = []")
    case True
    then show ?thesis using 1 by (simp add: traverseLoop.simps)
  next
    case False
    then have "traverseLoop s = traverseLoop (visit s)" by (simp add: traverseLoop.simps)
    then show ?thesis using 1 False by (simp add: visit_preserves)
  qed
qed

lemma trav_inv_init:
  "r < length h \<Longrightarrow>
   trav_inv h r \<lparr>tr_heap = h, tr_queue = [\<lparr>q_node = r, q_depth = 0, q_parent = None\<rparr>],
                  tr_visited = {}, tr_nodes = [], tr_nodesByDepth = []\<rparr>"
  by (simp add: trav_inv_def inv_root_def inv_shape_def inv_nodes_def inv_levels_def
        inv_parent_def inv_partner_def entry_ok_def inv_reach_def inv_pending_def
        reachable.root)


lemma traverse_annotations:
  assumes "traverseAndAnnotateTree h rootNode = Inr (h', ns, nodesByDepth)"
  shows "ns \<noteq> [] \<and> hd ns = rootNode \<and> depth (h' ! rootNode) = Some 0
       \<and> (\<forall>a \<in> set ns. a < length h' \<and> count_list ns a = 1)
       \<and> distinct (map (\<lambda>a. node_id (h' ! a)) ns)
       \<and> distinct (map fst nodesByDepth)
       \<and> (\<forall>d. set (orEmpty (map_of nodesByDepth d)) \<subseteq> set ns)
       \<and> (\<forall>a \<in> set ns. \<exists>d. depth (h' ! a) = Some d \<and>
             (\<forall>d'. count_list (orEmpty (map_of nodesByDepth d')) a = (if d' = d then 1 else 0)))
       \<and> (\<forall>a \<in> set ns. \<forall>p. parent (h' ! a) = Some p \<longrightarrow>
             p \<in> set ns \<and> a \<in> set (orEmpty (children (h' ! p))) \<and>
             depth (h' ! a) = map_option Suc (depth (h' ! p)))
       \<and> (\<forall>a \<in> set ns. parent (h' ! a) = None \<longrightarrow>
             (a = rootNode \<and> depth (h' ! a) = Some 0) \<or>
             (\<exists>q \<in> set ns. a \<in> set (orEmpty (partners (h' ! q))) \<and>
                             depth (h' ! a) = depth (h' ! q)))
       \<and> length h' = length h
       \<and> (\<forall>a < length h. node_id (h' ! a) = node_id (h ! a)
                        \<and> children (h' ! a) = children (h ! a)
                        \<and> partners (h' ! a) = partners (h ! a))
       \<and> (\<forall>a \<in> set ns. reachable h rootNode a)
       \<and> (\<forall>q \<in> set ns. \<forall>c \<in> set (orEmpty (children (h' ! q)) @ orEmpty (partners (h' ! q))).
             c < length h' \<longrightarrow> (\<exists>a \<in> set ns. node_id (h' ! a) = node_id (h' ! c)))
       \<and> (distinct (map node_id h) \<longrightarrow> set ns = {c. reachable h rootNode c})"
proof -
  let ?s0 = "\<lparr>tr_heap = h, tr_queue = [\<lparr>q_node = rootNode, q_depth = 0, q_parent = None\<rparr>],
              tr_visited = {}, tr_nodes = [], tr_nodesByDepth = []\<rparr>"
  from assms have r: "rootNode < length h"
    by (auto simp: traverseAndAnnotateTree_def split: if_splits)
  with assms have res: "h' = tr_heap (traverseLoop ?s0)" "ns = tr_nodes (traverseLoop ?s0)"
    "nodesByDepth = tr_nodesByDepth (traverseLoop ?s0)"
    by (simp_all add: traverseAndAnnotateTree_def Let_def)
  have fin: "trav_inv h rootNode (traverseLoop ?s0)" "tr_queue (traverseLoop ?s0) = []"
    using traverseLoop_preserves[OF trav_inv_init[OF r]] by simp_all
  then have 0: "ns \<noteq> [] \<and> hd ns = rootNode \<and> depth (h' ! rootNode) = Some 0"
    by (auto simp: trav_inv_def inv_root_def res)
  from fin have sh: "inv_shape h h'" and nd: "inv_nodes h ns (tr_visited (traverseLoop ?s0))"
    and lv: "inv_levels h' ns nodesByDepth" and pa: "inv_parent h h' ns"
    and pt: "inv_partner h rootNode h' ns" and re: "inv_reach h rootNode ns []"
    and pe: "inv_pending h ns (tr_visited (traverseLoop ?s0)) []"
    by (simp_all add: trav_inv_def res)
  have len: "length h' = length h" using sh by (simp add: inv_shape_def)
  have same: "node_id (h' ! a) = node_id (h ! a) \<and> children (h' ! a) = children (h ! a)
              \<and> partners (h' ! a) = partners (h ! a)" if "a < length h" for a
    using sh that by (simp add: inv_shape_def)
  have valid: "a < length h" if "a \<in> set ns" for a
    using nd that by (simp add: inv_nodes_def)
  have dist_ids: "distinct (map (\<lambda>a. node_id (h ! a)) ns)" using nd by (simp add: inv_nodes_def)
  then have dist: "distinct ns" by (simp add: distinct_map)
  have 1: "\<forall>a \<in> set ns. a < length h' \<and> count_list ns a = 1"
    using valid len dist by (simp add: count_list_distinct)
  have eq: "map (\<lambda>a. node_id (h' ! a)) ns = map (\<lambda>a. node_id (h ! a)) ns"
    using valid same by (intro map_cong) auto
  have 2: "distinct (map (\<lambda>a. node_id (h' ! a)) ns)" unfolding eq by (rule dist_ids)
  have 3: "distinct (map fst nodesByDepth)" using lv by (simp add: inv_levels_def)
  have bucket: "orEmpty (map_of nodesByDepth d) = filter (\<lambda>a. depth (h' ! a) = Some d) ns" for d
    using lv by (simp add: inv_levels_def)
  have 4: "\<forall>d. set (orEmpty (map_of nodesByDepth d)) \<subseteq> set ns"
    by (auto simp: bucket)
  have 5: "\<exists>d. depth (h' ! a) = Some d \<and>
             (\<forall>d'. count_list (orEmpty (map_of nodesByDepth d')) a = (if d' = d then 1 else 0))"
    if "a \<in> set ns" for a
  proof -
    from lv that obtain d where d: "depth (h' ! a) = Some d" by (auto simp: inv_levels_def)
    have "count_list (orEmpty (map_of nodesByDepth d')) a = (if d' = d then 1 else 0)" for d'
      using that dist d by (auto simp: bucket count_list_filter count_list_distinct)
    with d show ?thesis by blast
  qed
  have 6: "p \<in> set ns \<and> a \<in> set (orEmpty (children (h' ! p))) \<and>
             depth (h' ! a) = map_option Suc (depth (h' ! p))"
    if "a \<in> set ns" "parent (h' ! a) = Some p" for a p
  proof -
    from pa that have p: "p \<in> set ns" "a \<in> set (orEmpty (children (h ! p)))"
      "depth (h' ! a) = map_option Suc (depth (h' ! p))"
      by (auto simp: inv_parent_def)
    then show ?thesis using same[OF valid[OF p(1)]] by simp
  qed
  have 7: "(a = rootNode \<and> depth (h' ! a) = Some 0) \<or>
             (\<exists>q \<in> set ns. a \<in> set (orEmpty (partners (h' ! q))) \<and>
                             depth (h' ! a) = depth (h' ! q))"
    if "a \<in> set ns" "parent (h' ! a) = None" for a
  proof -
    from pt that have "(a = rootNode \<and> depth (h' ! a) = Some 0) \<or>
        (\<exists>q \<in> set ns. a \<in> set (orEmpty (partners (h ! q))) \<and> depth (h' ! a) = depth (h' ! q))"
      by (auto simp: inv_partner_def)
    then show ?thesis using same valid by metis
  qed
  have 8: "\<forall>a \<in> set ns. reachable h rootNode a" using re by (simp add: inv_reach_def)
  have vis: "tr_visited (traverseLoop ?s0) = (\<lambda>a. node_id (h ! a)) ` set ns"
    using nd by (simp add: inv_nodes_def)
  have closed: "\<exists>a \<in> set ns. node_id (h ! a) = node_id (h ! c)"
    if "q \<in> set ns" "c \<in> set (orEmpty (children (h ! q)) @ orEmpty (partners (h ! q)))"
      "c < length h" for q c
  proof -
    from pe that have "node_id (h ! c) \<in> (\<lambda>a. node_id (h ! a)) ` set ns"
      unfolding inv_pending_def vis by auto
    then show ?thesis by auto
  qed
  have 9: "\<exists>a \<in> set ns. node_id (h' ! a) = node_id (h' ! c)"
    if "q \<in> set ns" "c \<in> set (orEmpty (children (h' ! q)) @ orEmpty (partners (h' ! q)))"
      "c < length h'" for q c
  proof -
    from that have "c \<in> set (orEmpty (children (h ! q)) @ orEmpty (partners (h ! q)))"
      "c < length h"
      using same[OF valid[OF that(1)]] len by simp_all
    from closed[OF that(1) this] obtain a where "a \<in> set ns" "node_id (h ! a) = node_id (h ! c)"
      by blast
    then show ?thesis using same[OF valid] same[OF \<open>c < length h\<close>] by auto
  qed
  have 10: "set ns = {c. reachable h rootNode c}" if d: "distinct (map node_id h)"
  proof -
    have step: "c \<in> set ns"
      if "q \<in> set ns" "c \<in> set (orEmpty (children (h ! q)) @ orEmpty (partners (h ! q)))"
        "c < length h" for q c
    proof -
      from closed[OF that] obtain a where a: "a \<in> set ns" "node_id (h ! a) = node_id (h ! c)"
        by blast
      have la: "a < length (map node_id h)" and lc: "c < length (map node_id h)"
        using valid[OF a(1)] that(3) by simp_all
      have "map node_id h ! a = map node_id h ! c"
        using a(2) valid[OF a(1)] that(3) by simp
      then have "a = c" using nth_eq_iff_index_eq[OF d la lc] by blast
      with a show ?thesis by simp
    qed
    have "c \<in> set ns" if "reachable h rootNode c" for c
      using that
    proof induction
      case root
      then show ?case using 0 by (metis hd_in_set)
    next
      case (child q c)
      then show ?case using step[of q c] by simp
    next
      case (partner q c)
      then show ?case using step[of q c] by simp
    qed
    with 8 show ?thesis by auto
  qed
  have p6: "\<forall>a \<in> set ns. \<forall>p. parent (h' ! a) = Some p \<longrightarrow>
             p \<in> set ns \<and> a \<in> set (orEmpty (children (h' ! p))) \<and>
             depth (h' ! a) = map_option Suc (depth (h' ! p))"
    using 6 by blast
  have p7: "\<forall>a \<in> set ns. parent (h' ! a) = None \<longrightarrow>
             (a = rootNode \<and> depth (h' ! a) = Some 0) \<or>
             (\<exists>q \<in> set ns. a \<in> set (orEmpty (partners (h' ! q))) \<and>
                             depth (h' ! a) = depth (h' ! q))"
    using 7 by blast
  have p5: "\<forall>a \<in> set ns. \<exists>d. depth (h' ! a) = Some d \<and>
             (\<forall>d'. count_list (orEmpty (map_of nodesByDepth d')) a = (if d' = d then 1 else 0))"
    using 5 by blast
  have same': "\<forall>a < length h. node_id (h' ! a) = node_id (h ! a)
                        \<and> children (h' ! a) = children (h ! a)
                        \<and> partners (h' ! a) = partners (h ! a)"
    using same by blast
  have p9: "\<forall>q \<in> set ns. \<forall>c \<in> set (orEmpty (children (h' ! q)) @ orEmpty (partners (h' ! q))).
             c < length h' \<longrightarrow> (\<exists>a \<in> set ns. node_id (h' ! a) = node_id (h' ! c))"
    using 9 by blast
  have p10: "distinct (map node_id h) \<longrightarrow> set ns = {c. reachable h rootNode c}"
    using 10 by blast
  from 0 have p0: "ns \<noteq> []" "hd ns = rootNode" "depth (h' ! rootNode) = Some 0" by simp_all
  show ?thesis
    by (intro conjI) (fact p0 1 2 3 4 p5 p6 p7 len same' 8 p9 p10)+
qed

lemma sharedPartnerClone_traversal:
  "traverseAndAnnotateTree sharedPartnerClone 0 =
     Inr ([mkNode ''R'' None [] [1, 2] None 0 0 (Some 0),
           mkNode ''A'' (Some 0) [3] [] None 0 0 (Some 1),
           mkNode ''B'' (Some 0) [3] [] None 0 0 (Some 1),
           mkNode ''X'' None [1, 2] [] None 0 0 (Some 1)],
          [0, 1, 2, 3], [(0, [0]), (1, [1, 2, 3])])"
  by (simp add: traverseAndAnnotateTree_def traverseLoop.simps visit_def Let_def
        childEntries_def partnerEntries_def pushAtDepth_def sharedPartnerClone_def)

text \<open>
  Claim C1. The traversal returns for every root that is a node. The flat list starts
  with the root, at depth 0. Every node of the flat list is there once and has one
  depth; it is once in the bucket of that depth and in no other bucket, and the buckets
  hold only nodes of the flat list; a node with a recorded parent is listed as a child
  by this parent and is one level below it; a node without a recorded parent is the
  root at depth 0 or is listed as a partner by a node of the list that has the same
  depth. Ids, children and partners are as they were. The traversal goes on through
  children and partners and loses nothing: the nodes of the flat list are nodes that the
  root leads to, the id of every child and of every partner of a node of the list is
  the id of a node of the list, and where no two objects share an id the flat list
  holds exactly the nodes that the root leads to.
\<close>

theorem traverseAndAnnotateTree_depths:
  assumes "rootNode < length h"
  shows "\<exists>h' ns nodesByDepth.
       traverseAndAnnotateTree h rootNode = Inr (h', ns, nodesByDepth)
       \<and> ns \<noteq> [] \<and> hd ns = rootNode \<and> depth (h' ! rootNode) = Some 0
       \<and> (\<forall>a \<in> set ns. a < length h' \<and> count_list ns a = 1)
       \<and> distinct (map (\<lambda>a. node_id (h' ! a)) ns)
       \<and> distinct (map fst nodesByDepth)
       \<and> (\<forall>d. set (orEmpty (map_of nodesByDepth d)) \<subseteq> set ns)
       \<and> (\<forall>a \<in> set ns. \<exists>d. depth (h' ! a) = Some d \<and>
             (\<forall>d'. count_list (orEmpty (map_of nodesByDepth d')) a = (if d' = d then 1 else 0)))
       \<and> (\<forall>a \<in> set ns. \<forall>p. parent (h' ! a) = Some p \<longrightarrow>
             p \<in> set ns \<and> a \<in> set (orEmpty (children (h' ! p))) \<and>
             depth (h' ! a) = map_option Suc (depth (h' ! p)))
       \<and> (\<forall>a \<in> set ns. parent (h' ! a) = None \<longrightarrow>
             (a = rootNode \<and> depth (h' ! a) = Some 0) \<or>
             (\<exists>q \<in> set ns. a \<in> set (orEmpty (partners (h' ! q))) \<and>
                             depth (h' ! a) = depth (h' ! q)))
       \<and> length h' = length h
       \<and> (\<forall>a < length h. node_id (h' ! a) = node_id (h ! a)
                        \<and> children (h' ! a) = children (h ! a)
                        \<and> partners (h' ! a) = partners (h ! a))
       \<and> (\<forall>a \<in> set ns. reachable h rootNode a)
       \<and> (\<forall>q \<in> set ns. \<forall>c \<in> set (orEmpty (children (h' ! q)) @ orEmpty (partners (h' ! q))).
             c < length h' \<longrightarrow> (\<exists>a \<in> set ns. node_id (h' ! a) = node_id (h' ! c)))
       \<and> (distinct (map node_id h) \<longrightarrow> set ns = {c. reachable h rootNode c})"
proof -
  from assms obtain h' ns nodesByDepth
    where r: "traverseAndAnnotateTree h rootNode = Inr (h', ns, nodesByDepth)"
    by (simp add: traverseAndAnnotateTree_def Let_def)
  show ?thesis
    apply (rule exI[of _ h'])
    apply (rule exI[of _ ns])
    apply (rule exI[of _ nodesByDepth])
    apply (rule conjI)
     apply (rule r)
    apply (rule traverse_annotations[OF r])
    done
qed

text \<open>
  The graph with the shared partner: R at depth 0; A and B, its children, at depth 1;
  X, first reached as a partner of A, at the depth of A and without a parent.
\<close>

theorem traverseAndAnnotateTree_depths_witness:
  "traverseAndAnnotateTree sharedPartnerClone 0 =
     Inr ([mkNode ''R'' None [] [1, 2] None 0 0 (Some 0),
           mkNode ''A'' (Some 0) [3] [] None 0 0 (Some 1),
           mkNode ''B'' (Some 0) [3] [] None 0 0 (Some 1),
           mkNode ''X'' None [1, 2] [] None 0 0 (Some 1)],
          [0, 1, 2, 3], [(0, [0]), (1, [1, 2, 3])])
   \<and> count_list [0, 1, 2, 3] (3::nat) = 1
   \<and> count_list (orEmpty (map_of [(0, [0]), (1, [1, 2, 3::nat])] (1::nat))) 3 = 1
   \<and> count_list (orEmpty (map_of [(0, [0]), (1, [1, 2, 3::nat])] (0::nat))) 3 = 0
   \<and> distinct (map node_id sharedPartnerClone)
   \<and> {c. reachable sharedPartnerClone 0 c} = {0, 1, 2, 3}"
proof -
  let ?h' = "[mkNode ''R'' None [] [1, 2] None 0 0 (Some 0),
              mkNode ''A'' (Some 0) [3] [] None 0 0 (Some 1),
              mkNode ''B'' (Some 0) [3] [] None 0 0 (Some 1),
              mkNode ''X'' None [1, 2] [] None 0 0 (Some 1)]"
  have "0 < length sharedPartnerClone" by (simp add: sharedPartnerClone_def)
  from traverseAndAnnotateTree_depths[OF this] obtain h' ns nodesByDepth
    where r: "traverseAndAnnotateTree sharedPartnerClone 0 = Inr (h', ns, nodesByDepth)"
      and c1: "\<forall>a \<in> set ns. a < length h' \<and> count_list ns a = 1"
      and c5: "\<forall>a \<in> set ns. \<exists>d. depth (h' ! a) = Some d \<and>
             (\<forall>d'. count_list (orEmpty (map_of nodesByDepth d')) a = (if d' = d then 1 else 0))"
      and c10: "distinct (map node_id sharedPartnerClone) \<longrightarrow>
             set ns = {c. reachable sharedPartnerClone 0 c}"
    by (elim exE conjE) (rule that; assumption)
  from r have eq: "h' = ?h'" "ns = [0, 1, 2, 3]" "nodesByDepth = [(0, [0]), (1, [1, 2, 3])]"
    unfolding sharedPartnerClone_traversal by simp_all
  from c1 c5 c10
  have t: "(\<forall>a \<in> set [0, 1, 2, 3::nat]. a < length ?h' \<and> count_list [0, 1, 2, 3] a = 1)
       \<and> (\<forall>a \<in> set [0, 1, 2, 3::nat]. \<exists>d. depth (?h' ! a) = Some d \<and>
             (\<forall>d'. count_list (orEmpty (map_of [(0::nat, [0]), (1, [1, 2, 3])] d')) a
                    = (if d' = d then 1 else 0)))
       \<and> (distinct (map node_id sharedPartnerClone) \<longrightarrow>
             set [0, 1, 2, 3::nat] = {c. reachable sharedPartnerClone 0 c})"
    unfolding eq by (intro conjI)
  have ids: "distinct (map node_id sharedPartnerClone)" by (simp add: sharedPartnerClone_def)
  with t have "set [0, 1, 2, 3::nat] = {c. reachable sharedPartnerClone 0 c}" by blast
  then have 2: "{c. reachable sharedPartnerClone 0 c} = {0, 1, 2, 3}" by simp
  have m: "(3::nat) \<in> set [0, 1, 2, 3]" by simp
  from t have "\<forall>a \<in> set [0, 1, 2, 3::nat]. count_list [0, 1, 2, 3] a = 1" by blast
  from this[rule_format, OF m] have 1: "count_list [0, 1, 2, 3] (3::nat) = 1" .
  from t have "\<forall>a \<in> set [0, 1, 2, 3::nat]. \<exists>d. depth (?h' ! a) = Some d \<and>
     (\<forall>d'. count_list (orEmpty (map_of [(0::nat, [0]), (1, [1, 2, 3])] d')) a
            = (if d' = d then 1 else 0))"
    by blast
  from this[rule_format, OF m] obtain d where d: "depth (?h' ! 3) = Some d"
    and c: "\<And>d'. count_list (orEmpty (map_of [(0::nat, [0]), (1, [1, 2, 3])] d')) (3::nat)
                   = (if d' = d then 1 else 0)"
    by blast
  from d have "d = 1" by simp
  with c[of 1] c[of 0]
  have "count_list (orEmpty (map_of [(0, [0]), (1, [1, 2, 3::nat])] (1::nat))) 3 = 1"
    and "count_list (orEmpty (map_of [(0, [0]), (1, [1, 2, 3::nat])] (0::nat))) 3 = 0"
    by simp_all
  then show ?thesis using 1 2 ids sharedPartnerClone_traversal by blast
qed

section \<open>Proofs: the store and the root selection\<close>

lemma threePeople_eq: "threePeople = \<lparr>objects =
       [\<lparr>node_id = ''alice'', label = ''alice'', parent = None, partners = Some [],
           children = Some [], coParentId = None, node_image = None\<rparr>,
        \<lparr>node_id = ''bob'', label = ''bob'', parent = None, partners = Some [],
           children = Some [], coParentId = None, node_image = None\<rparr>,
        \<lparr>node_id = ''a'', label = ''a'', parent = None, partners = Some [],
           children = Some [], coParentId = None, node_image = None\<rparr>],
     nodes = [(''alice'', 0), (''bob'', 1), (''a'', 2)]\<rparr>"
  by (simp add: threePeople_def addNode_def emptyTree_def person_def)

lemma smallFamily_eq: "smallFamily = \<lparr>objects =
       [\<lparr>node_id = ''alice'', label = ''alice'', parent = None, partners = Some [1],
           children = Some [], coParentId = None, node_image = None\<rparr>,
        \<lparr>node_id = ''bob'', label = ''bob'', parent = None, partners = Some [0],
           children = Some [2], coParentId = None, node_image = None\<rparr>,
        \<lparr>node_id = ''a'', label = ''a'', parent = Some 1, partners = Some [],
           children = Some [], coParentId = Some ''alice'', node_image = None\<rparr>],
     nodes = [(''alice'', 0), (''bob'', 1), (''a'', 2)]\<rparr>"
  by (simp add: smallFamily_def threePeople_eq addParent_def getOrAdd_def person_def
       pushChild_def pushPartnerRef_def somePartnerHasId_def orEmpty_def)

subsection \<open>Root selection\<close>

lemma hasChildren_iff: "hasChildren t r \<longleftrightarrow> orEmpty (children (objects t ! r)) \<noteq> []"
  by (simp add: hasChildren_def orEmpty_def split: option.splits)

text \<open>
  Claim C6. The root of the traversal is the first node of \<open>getRootNodes()\<close> whose
  \<open>children\<close> is not empty; without such a node it is the first root; without any
  root the watcher stores the empty layout. \<open>getRootNodes()\<close> returns the registered
  nodes without a parent (and those whose parent has the empty id).
\<close>

theorem getRootNode_selects:
  "getRootNode t =
     (case find (\<lambda>r. orEmpty (children (objects t ! r)) \<noteq> []) (getRootNodes t) of
        Some r \<Rightarrow> Some r
      | None \<Rightarrow> (case getRootNodes t of [] \<Rightarrow> None | first # _ \<Rightarrow> Some first))
   \<and> (getRootNodes t = [] \<longrightarrow> layoutWatcher relayout t = ([], emptyLayout))
   \<and> (\<forall>r. getRootNode t = Some r \<longrightarrow> layoutWatcher relayout t = relayout t r)
   \<and> set (getRootNodes t) =
        {a \<in> snd ` set (nodes t).
           parent (objects t ! a) = None
           \<or> (\<exists>p. parent (objects t ! a) = Some p \<and> node_id (objects t ! p) = [])}"
proof -
  have h: "hasChildren t = (\<lambda>r. orEmpty (children (objects t ! r)) \<noteq> [])"
    by (rule ext) (rule hasChildren_iff)
  have 1: "getRootNode t =
     (case find (\<lambda>r. orEmpty (children (objects t ! r)) \<noteq> []) (getRootNodes t) of
        Some r \<Rightarrow> Some r
      | None \<Rightarrow> (case getRootNodes t of [] \<Rightarrow> None | first # _ \<Rightarrow> Some first))"
    by (simp add: getRootNode_def h Let_def split: list.splits option.splits)
  have 2: "getRootNodes t = [] \<longrightarrow> layoutWatcher relayout t = ([], emptyLayout)"
    by (simp add: layoutWatcher_def getRootNode_def)
  have 3: "\<forall>r. getRootNode t = Some r \<longrightarrow> layoutWatcher relayout t = relayout t r"
    by (simp add: layoutWatcher_def)
  have 4: "set (getRootNodes t) =
        {a \<in> snd ` set (nodes t).
           parent (objects t ! a) = None
           \<or> (\<exists>p. parent (objects t ! a) = Some p \<and> node_id (objects t ! p) = [])}"
    by (auto simp: getRootNodes_def split: option.splits)
  from 1 2 3 4 show ?thesis by blast
qed

text \<open>
  In the small family the roots are Alice and Bob, in this order; Alice has no children,
  so Bob is selected. With three unrelated people the first one is selected, and the
  empty store gives the empty layout.
\<close>

theorem getRootNode_selects_witness:
  "getRootNodes smallFamily = [0, 1] \<and> getRootNode smallFamily = Some 1
   \<and> getRootNode threePeople = Some 0
   \<and> getRootNode emptyTree = None
   \<and> layoutWatcher rootOnlyLayout emptyTree = ([], emptyLayout)"
proof -
  have r: "getRootNodes smallFamily = [0, 1]"
    by (simp add: getRootNodes_def smallFamily_eq)
  have r3: "getRootNodes threePeople = [0, 1, 2]"
    by (simp add: getRootNodes_def threePeople_eq)
  have e: "getRootNodes emptyTree = []"
    by (simp add: getRootNodes_def emptyTree_def)
  from getRootNode_selects[of smallFamily rootOnlyLayout] have "getRootNode smallFamily = Some 1"
    unfolding r by (simp add: smallFamily_eq)
  moreover from getRootNode_selects[of threePeople rootOnlyLayout] have "getRootNode threePeople = Some 0"
    unfolding r3 by (simp add: threePeople_eq)
  moreover from getRootNode_selects[of emptyTree rootOnlyLayout] e
  have "getRootNode emptyTree = None \<and> layoutWatcher rootOnlyLayout emptyTree = ([], emptyLayout)"
    by simp
  ultimately show ?thesis using r by simp
qed

subsection \<open>addParent on a child that has a parent\<close>

lemma update_fresh: "map_of al k = None \<Longrightarrow> AList.update k v al = al @ [(k, v)]"
  by (induction al) (auto split: if_splits)

lemma addNode_plain:
  "addNode t d None [] [] =
     (length (objects t),
      \<lparr>objects = objects t @
          [\<lparr>node_id = in_id d, label = in_label d, parent = None, partners = Some [],
            children = Some [], coParentId = in_coParentId d, node_image = in_image d\<rparr>],
       nodes = AList.update (in_id d) (length (objects t)) (nodes t)\<rparr>)"
  by (simp add: addNode_def Let_def)

text \<open>
  Claim C8. When the child exists and has a parent, \<open>addParent\<close> returns false;
  every object the store had is as before (the parent of the child is not overwritten
  and no list of children has grown), and an object the call made has no children.
\<close>

theorem addParent_rejects_second_parent:
  assumes "map_of (nodes t) childId = Some child" and "child < length (objects t)"
    and "parent (objects t ! child) \<noteq> None"
    and "addParent t childId parentData coParentData = (ok, t')"
  shows "\<not> ok
       \<and> (\<forall>a < length (objects t). objects t' ! a = objects t ! a)
       \<and> parent (objects t' ! child) = parent (objects t ! child)
       \<and> (\<forall>a < length (objects t'). a \<ge> length (objects t) \<longrightarrow> children (objects t' ! a) = Some [])"
proof (cases "map_of (nodes t) (in_id parentData)")
  case None
  then have g: "getOrAdd t parentData = addNode t parentData None [] []"
    by (simp add: getOrAdd_def)
  have "ok = False \<and> t' = snd (addNode t parentData None [] [])"
    using assms unfolding addParent_def g addNode_plain
    by (auto simp: nth_append)
  then show ?thesis using assms(2) by (auto simp: addNode_plain nth_append)
next
  case (Some p)
  then have g: "getOrAdd t parentData = (p, t)"
    by (simp add: getOrAdd_def)
  have "ok = False \<and> t' = t"
    using assms unfolding addParent_def g by auto
  then show ?thesis by simp
qed

text \<open>
  Claim C10. When the child has a parent and the id of \<open>parentData\<close> was not
  registered, the call returns false and yet the store has changed: the node made from
  \<open>parentData\<close> is a new object and is registered under its id, last in \<open>nodes\<close>.
\<close>

theorem addParent_failure_keeps_new_parent:
  assumes "map_of (nodes t) childId = Some child" and "child < length (objects t)"
    and "parent (objects t ! child) \<noteq> None"
    and "map_of (nodes t) (in_id parentData) = None"
  shows "addParent t childId parentData coParentData =
           (False,
            \<lparr>objects = objects t @
               [\<lparr>node_id = in_id parentData, label = in_label parentData, parent = None,
                 partners = Some [], children = Some [],
                 coParentId = in_coParentId parentData, node_image = in_image parentData\<rparr>],
             nodes = nodes t @ [(in_id parentData, length (objects t))]\<rparr>)
        \<and> map_of (nodes (snd (addParent t childId parentData coParentData))) (in_id parentData)
            = Some (length (objects t))
        \<and> snd (addParent t childId parentData coParentData) \<noteq> t"
proof -
  have g: "getOrAdd t parentData = addNode t parentData None [] []"
    using assms(4) by (simp add: getOrAdd_def)
  have e: "addParent t childId parentData coParentData =
           (False,
            \<lparr>objects = objects t @
               [\<lparr>node_id = in_id parentData, label = in_label parentData, parent = None,
                 partners = Some [], children = Some [],
                 coParentId = in_coParentId parentData, node_image = in_image parentData\<rparr>],
             nodes = nodes t @ [(in_id parentData, length (objects t))]\<rparr>)"
    using assms unfolding addParent_def g addNode_plain
    by (auto simp: nth_append update_fresh)
  have "objects (snd (addParent t childId parentData coParentData)) \<noteq> objects t"
    unfolding e by simp
  then have "snd (addParent t childId parentData coParentData) \<noteq> t" by auto
  moreover have "map_of (nodes (snd (addParent t childId parentData coParentData))) (in_id parentData)
            = Some (length (objects t))"
    unfolding e using assms(4) by (simp add: map_add_def)
  ultimately show ?thesis using e by simp
qed

text \<open>
  In the small family A has the parent Bob. Making Alice (registered) a parent of A, with
  a co-parent Carol, fails and leaves the store as it is.
\<close>

theorem addParent_rejects_second_parent_witness:
  "addParent smallFamily ''a'' (person ''alice'') (Some (person ''carol'')) = (False, smallFamily)
   \<and> parent (objects (snd (addParent smallFamily ''a'' (person ''alice'') (Some (person ''carol'')))) ! 2)
       = Some 1
   \<and> objects (snd (addParent smallFamily ''a'' (person ''alice'') (Some (person ''carol'')))) ! 0
       = objects smallFamily ! 0"
proof -
  let ?r = "addParent smallFamily ''a'' (person ''alice'') (Some (person ''carol''))"
  have e: "?r = (False, smallFamily)"
    by (simp add: smallFamily_eq addParent_def getOrAdd_def person_def)
  have 1: "map_of (nodes smallFamily) ''a'' = Some 2" and 2: "2 < length (objects smallFamily)"
    and 3: "parent (objects smallFamily ! 2) \<noteq> None"
    by (simp_all add: smallFamily_eq)
  have p: "?r = (fst ?r, snd ?r)" by simp
  from addParent_rejects_second_parent[OF 1 2 3 p]
  have "parent (objects (snd ?r) ! 2) = parent (objects smallFamily ! 2)"
    and "\<forall>a<length (objects smallFamily). objects (snd ?r) ! a = objects smallFamily ! a"
    by blast+
  then have "parent (objects (snd ?r) ! 2) = Some 1"
    and "objects (snd ?r) ! 0 = objects smallFamily ! 0"
    by (simp_all add: smallFamily_eq)
  with e show ?thesis by simp
qed

text \<open>Making the unregistered Carol a parent of A fails, and Carol stays in the store.\<close>

theorem addParent_failure_keeps_new_parent_witness:
  "addParent smallFamily ''a'' (person ''carol'') None =
     (False,
      \<lparr>objects = objects smallFamily @
         [\<lparr>node_id = ''carol'', label = ''carol'', parent = None, partners = Some [],
           children = Some [], coParentId = None, node_image = None\<rparr>],
       nodes = [(''alice'', 0), (''bob'', 1), (''a'', 2), (''carol'', 3)]\<rparr>)"
proof -
  have 1: "map_of (nodes smallFamily) ''a'' = Some 2" and 2: "2 < length (objects smallFamily)"
    and 3: "parent (objects smallFamily ! 2) \<noteq> None"
    and 4: "map_of (nodes smallFamily) (in_id (person ''carol'')) = None"
    by (simp_all add: smallFamily_eq person_def)
  from addParent_failure_keeps_new_parent[OF 1 2 3 4, of None] show ?thesis
    by (simp add: smallFamily_eq person_def)
qed

section \<open>Proofs: the clone\<close>



lemma unseen_copies [simp]: "unseen src (st\<lparr>copies := hp\<rparr>) = unseen src st"
  by (simp add: unseen_def)













section \<open>Proofs: link synthesis\<close>








subsection \<open>The loop over the families\<close>






























subsection \<open>handleNodePositionUpdate\<close>

text \<open>
  Claim C9. When a node with the id of the event is among the nodes, its position
  changes from (x, y) to (x + dx, y + dy) and nothing else of it; every other node is
  as before; the links are those of \<open>calculateLinks\<close> on the new positions; the list
  of nodes, the width and the height are untouched.
\<close>

theorem handleNodePositionUpdate_moves_one_node:
  assumes "\<forall>a \<in> set (pd_nodes pd). a < length h"
    and "find (\<lambda>n. node_id (h ! n) = upd_id u) (pd_nodes pd) = Some node"
    and "handleNodePositionUpdate W H u (h, pd) = (h', pd')"
  shows "h' ! node = (h ! node)\<lparr>node_x := node_x (h ! node) + upd_dx u,
                                 node_y := node_y (h ! node) + upd_dy u\<rparr>
       \<and> (\<forall>a. a \<noteq> node \<longrightarrow> h' ! a = h ! a)
       \<and> length h' = length h
       \<and> pd_links pd' = calculateLinks h' W H (pd_nodes pd')
       \<and> pd_nodes pd' = pd_nodes pd \<and> pd_width pd' = pd_width pd \<and> pd_height pd' = pd_height pd"
proof -
  from assms(2) have "node \<in> set (pd_nodes pd)"
    by (auto simp: find_Some_iff)
  with assms(1) have v: "node < length h" by blast
  from assms(3,2) have h': "h' = h[node := (h ! node)\<lparr>node_x := node_x (h ! node) + upd_dx u,
                                 node_y := node_y (h ! node) + upd_dy u\<rparr>]"
    and pd': "pd' = pd\<lparr>pd_links := calculateLinks h' W H (pd_nodes pd)\<rparr>"
    by (auto simp: handleNodePositionUpdate_def Let_def)
  show ?thesis using v by (simp add: h' pd')
qed

lemma handleNodePositionUpdate_unknown_id:
  "find (\<lambda>n. node_id (h ! n) = upd_id u) (pd_nodes pd) = None \<Longrightarrow>
   handleNodePositionUpdate W H u (h, pd) = (h, pd)"
  by (simp add: handleNodePositionUpdate_def)

lemma parentChild_nth:
  "parentChild ! 0 = mkNode ''R'' None [] [1] None 100 0 (Some 0)"
  "parentChild ! Suc 0 = mkNode ''C'' (Some 0) [] [] None 100 200 (Some 1)"
  "parentChild ! 1 = mkNode ''C'' (Some 0) [] [] None 100 200 (Some 1)"
  "length parentChild = 2"
  by (simp_all add: parentChild_def)

text \<open>
  The drag of the spec: C at (100, 200) moves by (15, -5) to (115, 195); R stays, and
  the link from R to C now ends at C's new top mid point (175, 195).
\<close>

theorem handleNodePositionUpdate_moves_one_node_witness:
  "fst (handleNodePositionUpdate 120 120 \<lparr>upd_id = ''C'', upd_dx = 15, upd_dy = -5, isDragEnd = None\<rparr>
         (parentChild, \<lparr>pd_nodes = [0, 1], pd_links = calculateLinks parentChild 120 120 [0, 1],
                        pd_width = 260, pd_height = 320\<rparr>))
     = [mkNode ''R'' None [] [1] None 100 0 (Some 0),
        mkNode ''C'' (Some 0) [] [] None 115 195 (Some 1)]
   \<and> snd (handleNodePositionUpdate 120 120 \<lparr>upd_id = ''C'', upd_dx = 15, upd_dy = -5, isDragEnd = None\<rparr>
         (parentChild, \<lparr>pd_nodes = [0, 1], pd_links = calculateLinks parentChild 120 120 [0, 1],
                        pd_width = 260, pd_height = 320\<rparr>))
     = \<lparr>pd_nodes = [0, 1],
        pd_links = [\<lparr>link_id = ''pc_R_C'', x1 = 160, y1 = 120, x2 = 175, y2 = 195,
                     hasArrow = Some True\<rparr>],
        pd_width = 260, pd_height = 320\<rparr>"
proof -
  let ?u = "\<lparr>upd_id = ''C'', upd_dx = 15, upd_dy = -5, isDragEnd = None\<rparr>"
  let ?pd = "\<lparr>pd_nodes = [0, 1], pd_links = calculateLinks parentChild 120 120 [0, 1],
                    pd_width = 260, pd_height = 320\<rparr>"
  let ?r = "handleNodePositionUpdate 120 120 ?u (parentChild, ?pd)"
  let ?h' = "[mkNode ''R'' None [] [1] None 100 0 (Some 0),
              mkNode ''C'' (Some 0) [] [] None 115 195 (Some 1)]"
  have v: "\<forall>a \<in> set (pd_nodes ?pd). a < length parentChild"
    by (simp add: parentChild_nth)
  have f: "find (\<lambda>n. node_id (parentChild ! n) = upd_id ?u) (pd_nodes ?pd) = Some 1"
    by (simp add: parentChild_nth)
  have r: "?r = (fst ?r, snd ?r)" by simp
  from handleNodePositionUpdate_moves_one_node[OF v f r]
  have 1: "fst ?r ! 1 = (parentChild ! 1)\<lparr>node_x := node_x (parentChild ! 1) + upd_dx ?u,
                                            node_y := node_y (parentChild ! 1) + upd_dy ?u\<rparr>"
    and 0: "fst ?r ! 0 = parentChild ! 0"
    and n: "length (fst ?r) = length parentChild"
    and l: "pd_links (snd ?r) = calculateLinks (fst ?r) 120 120 (pd_nodes (snd ?r))"
    and k: "pd_nodes (snd ?r) = pd_nodes ?pd" "pd_width (snd ?r) = pd_width ?pd"
           "pd_height (snd ?r) = pd_height ?pd"
    by simp_all
  have h: "fst ?r = ?h'"
  proof (rule nth_equalityI)
    show "length (fst ?r) = length ?h'" using n by (simp add: parentChild_nth)
    fix i assume "i < length (fst ?r)"
    then have "i = 0 \<or> i = 1" using n by (auto simp: parentChild_nth)
    then show "fst ?r ! i = ?h' ! i"
      using 0 1 by (auto simp: parentChild_nth mkNode_def)
  qed
  have g: "groupFamilies ?h' [0, 1] = [(''R'', [1])]"
    by (simp add: groupFamilies_def listedByParent_def familyIdOf_def addToFamily_def)
  have p: "fold (partnerLinks ?h' 120 120) [0, 1] [] = []"
    by (simp add: partnerLinks_def)
  have c: "calculateLinks ?h' 120 120 [0, 1] =
      [\<lparr>link_id = ''pc_R_C'', x1 = 160, y1 = 120, x2 = 175, y2 = 195, hasArrow = Some True\<rparr>]"
    unfolding calculateLinks_def g p
    by (simp add: familyLinks_def nodeMapGet_def mkLink_def Let_def)
  have "snd ?r = \<lparr>pd_nodes = [0, 1],
        pd_links = [\<lparr>link_id = ''pc_R_C'', x1 = 160, y1 = 120, x2 = 175, y2 = 195,
                     hasArrow = Some True\<rparr>],
        pd_width = 260, pd_height = 320\<rparr>"
    using l k c unfolding h by (cases "snd ?r") simp
  with h show ?thesis by simp
qed

end
